theory Spec2Isabelle
  imports Main "HOL-Library.FSet"
begin

section \<open>Values of the program\<close>

text \<open>
  The workout records come from \<^verbatim>\<open>res.json()\<close>, so they are arbitrary JSON values as
  Python's \<^verbatim>\<open>json\<close> module builds them. A float is kept by the two observations this
  program makes of one: whether it is non-zero (its truth value) and the whole UTC second
  that \<^verbatim>\<open>utcfromtimestamp\<close> reads from it after rounding to microseconds (\<open>None\<close> for
  nan and the infinities, where the conversion raises). A dict is an association list in
  insertion order; the keys of a Python dict are distinct, and on such a list \<open>map_of\<close>
  is the lookup of \<^verbatim>\<open>get\<close>, \<^verbatim>\<open>in\<close> and \<^verbatim>\<open>[]\<close>.
\<close>

datatype pyfloat = PyFloat (nonzero: bool) (whole_seconds: "int option")

datatype jval =
    JNull
  | JBool bool
  | JInt int
  | JFloat pyfloat
  | JStr string
  | JArr "jval list"
  | JObj "(string \<times> jval) list"

datatype error =
    HTTPException int string
  | TypeError
  | AttributeError
  | ValueError
  | JSONDecodeError
  | OverflowError
  | MemoryError

subsection \<open>Calendar dates\<close>

text \<open>
  A \<^verbatim>\<open>datetime.date\<close> is represented by its proleptic Gregorian ordinal
  (\<^verbatim>\<open>date.toordinal()\<close>: 1 is 0001-01-01, 719163 is 1970-01-01). Equality and order
  of dates are those of the ordinals, and \<^verbatim>\<open>d - timedelta(days=i)\<close> is subtraction.
  The functions below follow CPython's \<^verbatim>\<open>datetime\<close> module.
\<close>

type_synonym date = int

definition days_before_year :: "int \<Rightarrow> int" where
  "days_before_year year =
     (let y = year - 1 in y * 365 + y div 4 - y div 100 + y div 400)"

definition year_of :: "date \<Rightarrow> int" where
  "year_of ordinal =
     (let n = ordinal - 1;
          n400 = n div 146097; n = n mod 146097;
          n100 = n div 36524; n = n mod 36524;
          n4 = n div 1461; n = n mod 1461;
          n1 = n div 365;
          year = n400 * 400 + 1 + n100 * 100 + n4 * 4 + n1
      in if n1 = 4 \<or> n100 = 4 then year - 1 else year)"

definition isoweek1monday :: "int \<Rightarrow> int" where
  "isoweek1monday year =
     (let firstday = days_before_year year + 1;
          firstweekday = (firstday + 6) mod 7;
          week1monday = firstday - firstweekday
      in if firstweekday > 3 then week1monday + 7 else week1monday)"

definition isocalendar :: "date \<Rightarrow> int \<times> int \<times> int" where
  "isocalendar today =
     (let year = year_of today;
          week1monday = isoweek1monday year;
          week = (today - week1monday) div 7;
          day = (today - week1monday) mod 7
      in if week < 0 then
           (let year = year - 1;
                week1monday = isoweek1monday year
            in (year, (today - week1monday) div 7 + 1, (today - week1monday) mod 7 + 1))
         else if week \<ge> 52 \<and> today \<ge> isoweek1monday (year + 1) then
           (year + 1, 1, day + 1)
         else (year, week + 1, day + 1))"

text \<open>
  \<^verbatim>\<open>datetime.utcfromtimestamp(ts).date()\<close>. An integer outside the years 1 to 9999
  raises (ValueError, OverflowError or OSError by magnitude; one constructor stands for
  the three). A bool is an int in Python. Every other type is a TypeError.
\<close>

definition utcfromtimestamp_int :: "int \<Rightarrow> error + date" where
  "utcfromtimestamp_int ts =
     (if - 62135596800 \<le> ts \<and> ts \<le> 253402300799
      then Inr (719163 + ts div 86400) else Inl ValueError)"

fun utcfromtimestamp :: "jval \<Rightarrow> error + date" where
  "utcfromtimestamp (JInt ts) = utcfromtimestamp_int ts"
| "utcfromtimestamp (JBool b) = utcfromtimestamp_int (if b then 1 else 0)"
| "utcfromtimestamp (JFloat f) =
     (case whole_seconds f of None \<Rightarrow> Inl ValueError | Some s \<Rightarrow> utcfromtimestamp_int s)"
| "utcfromtimestamp _ = Inl TypeError"

text \<open>
  \<^verbatim>\<open>datetime.utcnow().date()\<close>: the wall clock is the state the program reads; it is
  given as the UTC time in whole seconds since the epoch at the moment of the call.
\<close>

definition utcnow_date :: "int \<Rightarrow> error + date" where
  "utcnow_date clock = utcfromtimestamp_int clock"

subsection \<open>Dict access and type tests\<close>

text \<open>\<^verbatim>\<open>w.get(key)\<close>: only a dict has the method.\<close>

fun py_get :: "jval \<Rightarrow> string \<Rightarrow> error + jval" where
  "py_get (JObj kvs) key = Inr (case map_of kvs key of None \<Rightarrow> JNull | Some v \<Rightarrow> v)"
| "py_get _ key = Inl AttributeError"

text \<open>\<^verbatim>\<open>isinstance(ts, int)\<close>: \<^verbatim>\<open>bool\<close> is a subclass of \<^verbatim>\<open>int\<close>.\<close>

fun isinstance_int :: "jval \<Rightarrow> bool" where
  "isinstance_int (JInt _) = True"
| "isinstance_int (JBool _) = True"
| "isinstance_int _ = False"

section \<open>The weekly streak calculator\<close>

text \<open>
  Lines 66 to 70, the body of the \<^verbatim>\<open>for\<close> loop for one record: the pair it adds to
  \<^verbatim>\<open>weeks_with_workouts\<close>, \<open>None\<close> when the record is skipped, or the exception.
\<close>

definition week_of :: "jval \<Rightarrow> error + (int \<times> int) option" where
  "week_of w =
     (case py_get w ''start_time'' of
        Inl e \<Rightarrow> Inl e
      | Inr ts \<Rightarrow>
          if isinstance_int ts then
            (case utcfromtimestamp ts of
               Inl e \<Rightarrow> Inl e
             | Inr workout_date \<Rightarrow>
                 (case isocalendar workout_date of
                    (year, week_num, _) \<Rightarrow> Inr (Some (year, week_num))))
          else Inr None)"

text \<open>Lines 63 to 70: the loop that fills \<^verbatim>\<open>weeks_with_workouts\<close>.\<close>

fun collect_weeks :: "jval list \<Rightarrow> (int \<times> int) fset \<Rightarrow> error + (int \<times> int) fset" where
  "collect_weeks [] weeks_with_workouts = Inr weeks_with_workouts"
| "collect_weeks (w # ws) weeks_with_workouts =
     (case week_of w of
        Inl e \<Rightarrow> Inl e
      | Inr None \<Rightarrow> collect_weeks ws weeks_with_workouts
      | Inr (Some p) \<Rightarrow> collect_weeks ws (finsert p weeks_with_workouts))"

text \<open>The order in which the walk descends: year first, then week number.\<close>

definition week_le :: "int \<times> int \<Rightarrow> int \<times> int \<Rightarrow> bool" where
  "week_le p q = (fst p < fst q \<or> (fst p = fst q \<and> snd p \<le> snd q))"

text \<open>Lines 78 to 89: the \<^verbatim>\<open>while\<close> loop, with the counter it returns.\<close>

function walk :: "(int \<times> int) fset \<Rightarrow> int \<Rightarrow> int \<Rightarrow> int \<Rightarrow> int" where
  "walk weeks_with_workouts y w streak =
     (if (y, w) |\<in>| weeks_with_workouts then
        (if w = 1 then walk weeks_with_workouts (y - 1) 52 (streak + 1)
         else walk weeks_with_workouts y (w - 1) (streak + 1))
      else streak)"
  by pat_completeness auto
termination
proof (relation "measure (\<lambda>(S, y, w, streak). fcard (ffilter (\<lambda>q. week_le q (y, w)) S))")
  show "wf (measure (\<lambda>(S, y, w, streak). fcard (ffilter (\<lambda>q. week_le q (y, w)) S)))"
    by simp
next
  fix S :: "(int \<times> int) fset" and y w streak :: int
  assume mem: "(y, w) |\<in>| S" and w1: "w = 1"
  have "ffilter (\<lambda>q. week_le q (y - 1, 52)) S |\<subseteq>| ffilter (\<lambda>q. week_le q (y, w)) S"
    by (rule fsubsetI) (auto simp: week_le_def)
  moreover have "(y, w) |\<in>| ffilter (\<lambda>q. week_le q (y, w)) S"
    using mem by (simp add: week_le_def)
  moreover have "(y, w) |\<notin>| ffilter (\<lambda>q. week_le q (y - 1, 52)) S"
    by (simp add: week_le_def)
  ultimately have "ffilter (\<lambda>q. week_le q (y - 1, 52)) S |\<subset>| ffilter (\<lambda>q. week_le q (y, w)) S"
    by blast
  then have "fcard (ffilter (\<lambda>q. week_le q (y - 1, 52)) S) < fcard (ffilter (\<lambda>q. week_le q (y, w)) S)"
    by (rule pfsubset_fcard_mono)
  then show "((S, y - 1, 52, streak + 1), (S, y, w, streak))
      \<in> measure (\<lambda>(S, y, w, streak). fcard (ffilter (\<lambda>q. week_le q (y, w)) S))"
    by simp
next
  fix S :: "(int \<times> int) fset" and y w streak :: int
  assume mem: "(y, w) |\<in>| S" and w1: "w \<noteq> 1"
  have "ffilter (\<lambda>q. week_le q (y, w - 1)) S |\<subseteq>| ffilter (\<lambda>q. week_le q (y, w)) S"
    by (rule fsubsetI) (auto simp: week_le_def)
  moreover have "(y, w) |\<in>| ffilter (\<lambda>q. week_le q (y, w)) S"
    using mem by (simp add: week_le_def)
  moreover have "(y, w) |\<notin>| ffilter (\<lambda>q. week_le q (y, w - 1)) S"
    by (simp add: week_le_def)
  ultimately have "ffilter (\<lambda>q. week_le q (y, w - 1)) S |\<subset>| ffilter (\<lambda>q. week_le q (y, w)) S"
    by blast
  then have "fcard (ffilter (\<lambda>q. week_le q (y, w - 1)) S) < fcard (ffilter (\<lambda>q. week_le q (y, w)) S)"
    by (rule pfsubset_fcard_mono)
  then show "((S, y, w - 1, streak + 1), (S, y, w, streak))
      \<in> measure (\<lambda>(S, y, w, streak). fcard (ffilter (\<lambda>q. week_le q (y, w)) S))"
    by simp
qed

declare walk.simps [simp del]

definition calculate_weekly_streak :: "int \<Rightarrow> jval list \<Rightarrow> error + int" where
  "calculate_weekly_streak clock workouts =
     (case collect_weeks workouts {||} of
        Inl e \<Rightarrow> Inl e
      | Inr weeks_with_workouts \<Rightarrow>
          if weeks_with_workouts = {||} then Inr 0
          else
            (case utcnow_date clock of
               Inl e \<Rightarrow> Inl e
             | Inr today \<Rightarrow>
                 (case isocalendar today of
                    (current_year, current_week, _) \<Rightarrow>
                      Inr (walk weeks_with_workouts current_year current_week 0))))"

section \<open>The paginated fetcher\<close>

text \<open>
  An \<^verbatim>\<open>httpx\<close> response, as far as the fetcher reads it: the status code and the
  body as \<^verbatim>\<open>res.json()\<close> parses it (\<open>None\<close> when the body is not JSON and the call
  raises). The remote listing, for the session and user of the call, is a function from
  the request parameters \<^verbatim>\<open>limit\<close> and \<^verbatim>\<open>page\<close> to the response.
\<close>

record response =
  status_code :: int
  json_body :: "jval option"

type_synonym server = "int \<Rightarrow> int \<Rightarrow> response"

definition res_json :: "response \<Rightarrow> error + jval" where
  "res_json res = (case json_body res of None \<Rightarrow> Inl JSONDecodeError | Some j \<Rightarrow> Inr j)"

text \<open>\<^verbatim>\<open>j.get(key, default)\<close>.\<close>

fun py_get_default :: "jval \<Rightarrow> string \<Rightarrow> jval \<Rightarrow> error + jval" where
  "py_get_default (JObj kvs) key dflt =
     Inr (case map_of kvs key of None \<Rightarrow> dflt | Some v \<Rightarrow> v)"
| "py_get_default _ key dflt = Inl AttributeError"

text \<open>The truth value of a Python object, as \<^verbatim>\<open>not data\<close> tests it.\<close>

fun truthy :: "jval \<Rightarrow> bool" where
  "truthy JNull = False"
| "truthy (JBool b) = b"
| "truthy (JInt i) = (i \<noteq> 0)"
| "truthy (JFloat f) = nonzero f"
| "truthy (JStr s) = (s \<noteq> [])"
| "truthy (JArr xs) = (xs \<noteq> [])"
| "truthy (JObj kvs) = (kvs \<noteq> [])"

text \<open>
  What \<^verbatim>\<open>workouts.extend(data)\<close> appends: the elements of a list, the characters of a
  string, the keys of a dict; anything else is not iterable.
\<close>

fun py_iter :: "jval \<Rightarrow> error + jval list" where
  "py_iter (JArr xs) = Inr xs"
| "py_iter (JStr s) = Inr (map (\<lambda>c. JStr [c]) s)"
| "py_iter (JObj kvs) = Inr (map (\<lambda>kv. JStr (fst kv)) kvs)"
| "py_iter _ = Inl TypeError"

text \<open>
  Lines 114 to 117, the set comprehension: the dates of the records that are dicts with a
  \<^verbatim>\<open>start_time\<close> key, in the order of the records; the first conversion that raises
  ends it.
\<close>

fun start_dates :: "jval list \<Rightarrow> error + date list" where
  "start_dates [] = Inr []"
| "start_dates (w # ws) =
     (case w of
        JObj kvs \<Rightarrow>
          (case map_of kvs ''start_time'' of
             None \<Rightarrow> start_dates ws
           | Some ts \<Rightarrow>
               (case utcfromtimestamp ts of
                  Inl e \<Rightarrow> Inl e
                | Inr d \<Rightarrow>
                    (case start_dates ws of Inl e \<Rightarrow> Inl e | Inr ds \<Rightarrow> Inr (d # ds))))
      | _ \<Rightarrow> start_dates ws)"

text \<open>\<^verbatim>\<open>sorted(set(ds), reverse=True)\<close>.\<close>

definition sorted_desc :: "date list \<Rightarrow> date list" where
  "sorted_desc ds = rev (sort (remdups ds))"

text \<open>Lines 120 to 122: the \<^verbatim>\<open>for i, d in enumerate(dates)\<close> loop, from index \<open>i\<close>.\<close>

fun gap_from :: "date \<Rightarrow> int \<Rightarrow> date list \<Rightarrow> bool" where
  "gap_from today i [] = False"
| "gap_from today i (d # ds) = (if d \<noteq> today - i then True else gap_from today (i + 1) ds)"

text \<open>Python's \<^verbatim>\<open>str\<close> of an integer.\<close>

definition digit :: "nat \<Rightarrow> char" where
  "digit d = ''0123456789'' ! d"

fun digits :: "nat \<Rightarrow> string" where
  "digits n = (if n < 10 then [digit n] else digits (n div 10) @ [digit (n mod 10)])"

declare digits.simps [simp del]

definition str_int :: "int \<Rightarrow> string" where
  "str_int i = (if i < 0 then CHR ''-'' # digits (nat (- i)) else digits (nat i))"

definition limit :: int where
  "limit = 100"

text \<open>
  One iteration of the \<^verbatim>\<open>while True\<close> loop, lines 101 to 124: it raises, returns the
  records, or goes on to the next page with the records extended. The clock is read once
  in each iteration that gets that far; \<open>clock page\<close> is its reading in the iteration
  for \<open>page\<close>.
\<close>

datatype flow = Raise error | Return "jval list" | Next "jval list"

text \<open>Line 108: \<^verbatim>\<open>res.json().get("data", [])\<close>.\<close>

definition response_data :: "response \<Rightarrow> error + jval" where
  "response_data res =
     (case res_json res of
        Inl e \<Rightarrow> Inl e
      | Inr body \<Rightarrow> py_get_default body ''data'' (JArr []))"

definition loop_body :: "server \<Rightarrow> (int \<Rightarrow> int) \<Rightarrow> int \<Rightarrow> jval list \<Rightarrow> flow" where
  "loop_body client_get clock page workouts =
     (let res = client_get limit page in
      if status_code res \<noteq> 200 then
        Raise (HTTPException 500 (''Failed to fetch workouts on page '' @ str_int page))
      else
        (case response_data res of
           Inl e \<Rightarrow> Raise e
         | Inr data \<Rightarrow>
             if \<not> truthy data then Return workouts
             else
               (case py_iter data of
                  Inl e \<Rightarrow> Raise e
                | Inr items \<Rightarrow>
                    (let workouts = workouts @ items in
                     case start_dates workouts of
                       Inl e \<Rightarrow> Raise e
                     | Inr ds \<Rightarrow>
                         (let dates = sorted_desc ds in
                          case utcnow_date (clock page) of
                            Inl e \<Rightarrow> Raise e
                          | Inr today \<Rightarrow>
                              if gap_from today 0 dates then Return workouts
                              else Next workouts)))))"

text \<open>The loop. It need not end: \<open>None\<close> is the run that fetches pages forever.\<close>

partial_function (option) fetch_loop ::
    "server \<Rightarrow> (int \<Rightarrow> int) \<Rightarrow> int \<Rightarrow> jval list \<Rightarrow> (error + jval list) option" where
  "fetch_loop client_get clock page workouts =
     (case loop_body client_get clock page workouts of
        Raise e \<Rightarrow> Some (Inl e)
      | Return ws \<Rightarrow> Some (Inr ws)
      | Next ws \<Rightarrow> fetch_loop client_get clock (page + 1) ws)"

definition fetch_workouts_for_streak ::
    "server \<Rightarrow> (int \<Rightarrow> int) \<Rightarrow> (error + jval list) option" where
  "fetch_workouts_for_streak client_get clock = fetch_loop client_get clock 0 []"

section \<open>The streak bar\<close>

text \<open>
  The bar is a Python \<^verbatim>\<open>str\<close>, a sequence of Unicode code points; the marker is
  U+25CF, which is not a \<^typ>\<open>char\<close>, so the bar is a list of code points.
\<close>

type_synonym pystr = "nat list"

definition codepoints :: "string \<Rightarrow> pystr" where
  "codepoints s = map of_char s"

definition marker :: nat where
  "marker = 9679"

text \<open>
  Building a string can fail. A repeat count or a length beyond \<^verbatim>\<open>sys.maxsize\<close>
  (\<open>2\<^sup>6\<^sup>3 - 1\<close> on 64-bit CPython) is an OverflowError; since CPython 3.11 the decimal
  form of an integer of more than 4300 digits is a ValueError; a string that the machine
  cannot allocate is a MemoryError. What the machine can allocate is state that the
  function depends on, as the clock is for the calculator: \<open>mem n\<close> tells whether a
  \<^verbatim>\<open>str\<close> of \<open>n\<close> code points can be allocated.
\<close>

definition ssize_max :: int where
  "ssize_max = 2 ^ 63 - 1"

definition max_str_digits :: nat where
  "max_str_digits = 4300"

text \<open>
  \<^verbatim>\<open>s * n\<close> on strings: the count must be index-sized; a count below 1 gives the empty
  string and the count 1 the string itself, without a new string being built.
\<close>

definition py_repeat :: "(nat \<Rightarrow> bool) \<Rightarrow> pystr \<Rightarrow> int \<Rightarrow> error + pystr" where
  "py_repeat mem s n =
     (if n < - ssize_max - 1 \<or> ssize_max < n then Inl OverflowError
      else if n < 1 then Inr []
      else if n = 1 then Inr s
      else if ssize_max div n < int (length s) then Inl OverflowError
      else if s \<noteq> [] \<and> \<not> mem (length s * nat n) then Inl MemoryError
      else Inr (concat (replicate (nat n) s)))"

text \<open>The decimal form of an integer inside an f-string.\<close>

definition py_format_int :: "(nat \<Rightarrow> bool) \<Rightarrow> int \<Rightarrow> error + string" where
  "py_format_int mem i =
     (if max_str_digits < length (digits (nat \<bar>i\<bar>)) then Inl ValueError
      else if \<not> mem (length (str_int i)) then Inl MemoryError
      else Inr (str_int i))"

text \<open>
  \<^verbatim>\<open>a + b\<close> on strings, and the joining of the pieces of an f-string: an empty operand
  gives the other one as it is.
\<close>

definition py_concat :: "(nat \<Rightarrow> bool) \<Rightarrow> pystr \<Rightarrow> pystr \<Rightarrow> error + pystr" where
  "py_concat mem a b =
     (if a = [] then Inr b
      else if b = [] then Inr a
      else if ssize_max < int (length a) + int (length b) then Inl OverflowError
      else if \<not> mem (length a + length b) then Inl MemoryError
      else Inr (a @ b))"

text \<open>Lines 183 to 187. The left operand of \<^verbatim>\<open>+\<close> is built first, then the f-string.\<close>

definition generate_streak_bar :: "(nat \<Rightarrow> bool) \<Rightarrow> int \<Rightarrow> int \<Rightarrow> error + pystr" where
  "generate_streak_bar mem weeks max_units =
     (if weeks \<le> max_units then py_repeat mem [marker] weeks
      else
        (case py_repeat mem [marker] max_units of
           Inl e \<Rightarrow> Inl e
         | Inr bar \<Rightarrow>
             (case py_format_int mem (weeks - max_units) of
                Inl e \<Rightarrow> Inl e
              | Inr number \<Rightarrow>
                  (case py_concat mem (codepoints '' +'') (codepoints number) of
                     Inl e \<Rightarrow> Inl e
                   | Inr suffix \<Rightarrow> py_concat mem bar suffix))))"

text \<open>The default of the second parameter.\<close>

definition default_max_units :: int where
  "default_max_units = 20"

text \<open>A machine on which every string can be allocated.\<close>

definition no_limit :: "nat \<Rightarrow> bool" where
  "no_limit n = True"

text \<open>
  The decimal digits of a number, the most significant first, and the number that a list
  of digits writes.
\<close>

fun dec :: "nat \<Rightarrow> nat list" where
  "dec n = (if n < 10 then [n] else dec (n div 10) @ [n mod 10])"

declare dec.simps [simp del]

definition written :: "nat list \<Rightarrow> nat" where
  "written ds = foldl (\<lambda>a d. 10 * a + d) 0 ds"

section \<open>The properties, in the words of the specification\<close>

text \<open>
  One calendar week back, as the specification puts it: from week 1 to week 52 of the
  prior year, otherwise the week number less one.
\<close>

definition step_back :: "int \<times> int \<Rightarrow> int \<times> int" where
  "step_back p = (if snd p = 1 then (fst p - 1, 52) else (fst p, snd p - 1))"

text \<open>
  A record whose ISO (year, week) pair is the pair of the current week, the clock being
  readable.
\<close>

definition in_current_week :: "int \<Rightarrow> jval \<Rightarrow> bool" where
  "in_current_week clock w =
     (case utcnow_date clock of
        Inl e \<Rightarrow> False
      | Inr today \<Rightarrow>
          (case isocalendar today of (cy, cw, _) \<Rightarrow> week_of w = Inr (Some (cy, cw))))"

text \<open>
  A record that is a dict whose start time is missing or not an integer (a bool is an
  integer in Python).
\<close>

fun lacks_int_start :: "jval \<Rightarrow> bool" where
  "lacks_int_start (JObj kvs) =
     (case map_of kvs ''start_time'' of
        None \<Rightarrow> True
      | Some (JInt i) \<Rightarrow> False
      | Some (JBool b) \<Rightarrow> False
      | Some other \<Rightarrow> True)"
| "lacks_int_start other = False"

text \<open>
  What one page adds to the accumulated list: the elements of its \<^verbatim>\<open>data\<close>, nothing
  when there is none to iterate.
\<close>

definition page_records :: "response \<Rightarrow> jval list" where
  "page_records res =
     (case response_data res of
        Inl e \<Rightarrow> []
      | Inr data \<Rightarrow> (case py_iter data of Inl e \<Rightarrow> [] | Inr items \<Rightarrow> items))"

text \<open>The records of the pages before \<open>p\<close>, appended in the order of the pages.\<close>

fun fetched :: "server \<Rightarrow> nat \<Rightarrow> jval list" where
  "fetched client_get 0 = []"
| "fetched client_get (Suc p) = fetched client_get p @ page_records (client_get limit (int p))"

text \<open>Page \<open>p\<close> is fetched with success and returns no records.\<close>

definition page_empty :: "server \<Rightarrow> nat \<Rightarrow> bool" where
  "page_empty client_get p =
     (status_code (client_get limit (int p)) = 200 \<and>
      (case response_data (client_get limit (int p)) of
         Inl e \<Rightarrow> False
       | Inr data \<Rightarrow> \<not> truthy data))"

text \<open>
  Page \<open>p\<close> is fetched with success, has records and is appended: today as the clock
  gives it then, and the distinct calendar dates of all the accumulated workouts, sorted
  descending. \<open>None\<close> when the page fails or is empty, or a date cannot be computed.
\<close>

definition page_dates :: "server \<Rightarrow> (int \<Rightarrow> int) \<Rightarrow> nat \<Rightarrow> (date \<times> date list) option" where
  "page_dates client_get clock p =
     (if status_code (client_get limit (int p)) \<noteq> 200 then None
      else
        (case response_data (client_get limit (int p)) of
           Inl e \<Rightarrow> None
         | Inr data \<Rightarrow>
             if \<not> truthy data then None
             else
               (case py_iter data of
                  Inl e \<Rightarrow> None
                | Inr items \<Rightarrow>
                    (case start_dates (fetched client_get (Suc p)) of
                       Inl e \<Rightarrow> None
                     | Inr ds \<Rightarrow>
                         (case utcnow_date (clock (int p)) of
                            Inl e \<Rightarrow> None
                          | Inr today \<Rightarrow> Some (today, sorted_desc ds))))))"

text \<open>Some index \<open>i\<close> into the dates has a date that is not today less \<open>i\<close> days.\<close>

definition has_gap :: "date \<Rightarrow> date list \<Rightarrow> bool" where
  "has_gap today dates = (\<exists>i<length dates. dates ! i \<noteq> today - int i)"

text \<open>After page \<open>p\<close> is appended the dates have no gap, or they have one.\<close>

definition page_continues :: "server \<Rightarrow> (int \<Rightarrow> int) \<Rightarrow> nat \<Rightarrow> bool" where
  "page_continues client_get clock p =
     (case page_dates client_get clock p of
        None \<Rightarrow> False
      | Some (today, dates) \<Rightarrow> \<not> has_gap today dates)"

definition page_gap :: "server \<Rightarrow> (int \<Rightarrow> int) \<Rightarrow> nat \<Rightarrow> bool" where
  "page_gap client_get clock p =
     (case page_dates client_get clock p of
        None \<Rightarrow> False
      | Some (today, dates) \<Rightarrow> has_gap today dates)"

text \<open>
  The records that the \<^verbatim>\<open>data\<close> of a page holds: the elements of a list, the characters
  of a string, the keys of a dict; none for null, false, zero and the empty containers;
  and no reading at all (\<open>None\<close>) for a number or a bool that is not zero, which cannot
  be iterated.
\<close>

fun items_of :: "jval \<Rightarrow> jval list option" where
  "items_of JNull = Some []"
| "items_of (JBool b) = (if b then None else Some [])"
| "items_of (JInt i) = (if i = 0 then Some [] else None)"
| "items_of (JFloat f) = (if nonzero f then None else Some [])"
| "items_of (JStr s) = Some (map (\<lambda>c. JStr [c]) s)"
| "items_of (JArr xs) = Some xs"
| "items_of (JObj kvs) = Some (map (\<lambda>kv. JStr (fst kv)) kvs)"

text \<open>
  The records of a fetched page: the response has status 200 and a JSON object as its
  body, and the records are those of its \<^verbatim>\<open>data\<close> field, none when the field is absent.
\<close>

definition page_items :: "response \<Rightarrow> jval list option" where
  "page_items res =
     (if status_code res = 200 then
        (case json_body res of
           Some (JObj kvs) \<Rightarrow>
             (case map_of kvs ''data'' of None \<Rightarrow> Some [] | Some data \<Rightarrow> items_of data)
         | _ \<Rightarrow> None)
      else None)"

text \<open>The records of the pages before \<open>p\<close>, appended in the order of the pages.\<close>

fun accumulated :: "server \<Rightarrow> nat \<Rightarrow> jval list" where
  "accumulated client_get 0 = []"
| "accumulated client_get (Suc p) =
     accumulated client_get p @
       (case page_items (client_get limit (int p)) of None \<Rightarrow> [] | Some xs \<Rightarrow> xs)"

text \<open>Page \<open>p\<close> is fetched and holds no records.\<close>

definition empty_page :: "server \<Rightarrow> nat \<Rightarrow> bool" where
  "empty_page client_get p = (page_items (client_get limit (int p)) = Some [])"

text \<open>The start time of a workout: of a record that is a dict and has the key.\<close>

definition stamp_of :: "jval \<Rightarrow> jval option" where
  "stamp_of w = (case w of JObj kvs \<Rightarrow> map_of kvs ''start_time'' | _ \<Rightarrow> None)"

text \<open>The calendar dates of the workouts, and whether each start time has one.\<close>

definition date_list :: "jval list \<Rightarrow> date list" where
  "date_list ws =
     List.map_filter
       (\<lambda>w. case stamp_of w of
              None \<Rightarrow> None
            | Some ts \<Rightarrow> (case utcfromtimestamp ts of Inl e \<Rightarrow> None | Inr d \<Rightarrow> Some d))
       ws"

definition dates_readable :: "jval list \<Rightarrow> bool" where
  "dates_readable ws =
     list_all
       (\<lambda>w. case stamp_of w of
              None \<Rightarrow> True
            | Some ts \<Rightarrow> (case utcfromtimestamp ts of Inl e \<Rightarrow> False | Inr d \<Rightarrow> True))
       ws"

text \<open>The distinct calendar dates of the workouts, sorted descending.\<close>

definition dates_desc :: "jval list \<Rightarrow> date list" where
  "dates_desc ws = rev (sorted_list_of_set (set (date_list ws)))"

text \<open>
  Page \<open>p\<close> is fetched and holds records, every start time accumulated through it has a
  date, and the clock can be read: today, as the clock gives it in that iteration.
\<close>

definition appended :: "server \<Rightarrow> (int \<Rightarrow> int) \<Rightarrow> nat \<Rightarrow> date option" where
  "appended client_get clock p =
     (case page_items (client_get limit (int p)) of
        Some (x # xs) \<Rightarrow>
          if dates_readable (accumulated client_get (Suc p)) then
            (case utcnow_date (clock (int p)) of Inl e \<Rightarrow> None | Inr today \<Rightarrow> Some today)
          else None
      | _ \<Rightarrow> None)"

text \<open>
  After page \<open>p\<close> is appended, some index \<open>i\<close> into the sorted distinct dates has a date
  other than today less \<open>i\<close> days; or none has.
\<close>

definition gap_after :: "server \<Rightarrow> (int \<Rightarrow> int) \<Rightarrow> nat \<Rightarrow> bool" where
  "gap_after client_get clock p =
     (case appended client_get clock p of
        None \<Rightarrow> False
      | Some today \<Rightarrow> has_gap today (dates_desc (accumulated client_get (Suc p))))"

definition no_gap_after :: "server \<Rightarrow> (int \<Rightarrow> int) \<Rightarrow> nat \<Rightarrow> bool" where
  "no_gap_after client_get clock p =
     (case appended client_get clock p of
        None \<Rightarrow> False
      | Some today \<Rightarrow> \<not> has_gap today (dates_desc (accumulated client_get (Suc p))))"

subsection \<open>Remote listings for the examples\<close>

text \<open>A response with status 200 whose body is \<^verbatim>\<open>{"data": records}\<close>.\<close>

definition ok_page :: "jval list \<Rightarrow> response" where
  "ok_page records =
     \<lparr>status_code = 200, json_body = Some (JObj [(''data'', JArr records)])\<rparr>"


text \<open>Every page has one workout, whose start time is \<^verbatim>\<open>null\<close>.\<close>

definition null_start :: server where
  "null_start lim page = ok_page [JObj [(''start_time'', JNull)]]"

text \<open>
  Two pages of workouts: 1970-01-01, 1969-12-31, one without a start time and 1970-01-01
  again; then 1969-12-29 and 1969-12-31 again.
\<close>

definition first_page :: "jval list" where
  "first_page =
     [JObj [(''start_time'', JInt 0)],
      JObj [(''start_time'', JInt (- 86400))],
      JObj [(''id'', JStr ''a'')],
      JObj [(''start_time'', JInt 3600)]]"

definition second_page :: "jval list" where
  "second_page =
     [JObj [(''start_time'', JInt (- 259200))],
      JObj [(''start_time'', JInt (- 86400))]]"

text \<open>The two pages, and status 500 for every later fetch.\<close>

definition gap_listing :: server where
  "gap_listing lim page =
     (if page = 0 then ok_page first_page
      else if page = 1 then ok_page second_page
      else \<lparr>status_code = 500, json_body = None\<rparr>)"

text \<open>The first of the two pages, and every later page empty.\<close>

definition ending_listing :: server where
  "ending_listing lim page = (if page = 0 then ok_page first_page else ok_page [])"

section \<open>Facts about the walk\<close>

lemma walk_in: "(y, w) |\<in>| S \<Longrightarrow>
    walk S y w k = walk S (fst (step_back (y, w))) (snd (step_back (y, w))) (k + 1)"
  by (subst walk.simps) (simp add: step_back_def)

lemma walk_out: "(y, w) |\<notin>| S \<Longrightarrow> walk S y w k = k"
  by (subst walk.simps) simp

lemma walk_ge: "k \<le> walk S y w k"
proof (induction S y w k rule: walk.induct)
  case (1 S y w k)
  show ?case
  proof (cases "(y, w) |\<in>| S")
    case True
    then show ?thesis using 1 by (subst walk.simps) (auto split: if_splits)
  next
    case False
    then show ?thesis by (simp add: walk_out)
  qed
qed

lemma step_back_lt: "week_le (step_back p) p \<and> step_back p \<noteq> p"
  by (cases p) (simp add: step_back_def week_le_def)

lemma week_le_trans: "week_le p q \<Longrightarrow> week_le q r \<Longrightarrow> week_le p r"
  by (auto simp: week_le_def)

lemma week_le_antisym: "week_le p q \<Longrightarrow> week_le q p \<Longrightarrow> p = q"
  by (cases p; cases q) (auto simp: week_le_def)

lemma funpow_step_back_le: "week_le ((step_back ^^ n) p) p"
proof (induction n)
  case 0
  show ?case by (simp add: week_le_def)
next
  case (Suc n)
  have "week_le (step_back ((step_back ^^ n) p)) ((step_back ^^ n) p)"
    using step_back_lt by blast
  then show ?case using Suc by (auto intro: week_le_trans)
qed

lemma funpow_step_back_neq: "(step_back ^^ Suc n) p \<noteq> p"
proof
  assume eq: "(step_back ^^ Suc n) p = p"
  have "(step_back ^^ Suc n) p = (step_back ^^ n) (step_back p)"
    by (simp add: funpow_swap1)
  then have "week_le p (step_back p)"
    using funpow_step_back_le [of n "step_back p"] eq by simp
  then show False
    using step_back_lt [of p] week_le_antisym by blast
qed

lemma funpow_step_back_distinct: "i < j \<Longrightarrow> (step_back ^^ i) p \<noteq> (step_back ^^ j) p"
proof -
  assume "i < j"
  then obtain d where j: "j = Suc d + i"
    using less_imp_Suc_add by (metis add.commute add_Suc_right)
  have "(step_back ^^ j) p = (step_back ^^ Suc d) ((step_back ^^ i) p)"
    unfolding j by (simp only: funpow_add o_apply)
  then show ?thesis
    using funpow_step_back_neq [of d "(step_back ^^ i) p"] by simp
qed

lemma walk_iff:
  "walk S y w k = k + int n \<longleftrightarrow>
     (\<forall>i<n. (step_back ^^ i) (y, w) |\<in>| S) \<and> (step_back ^^ n) (y, w) |\<notin>| S"
proof (induction S y w k arbitrary: n rule: walk.induct)
  case (1 S y w k)
  show ?case
  proof (cases "(y, w) |\<in>| S")
    case False
    then show ?thesis
      by (cases n) (auto simp: walk_out)
  next
    case True
    obtain y' w' where sb: "step_back (y, w) = (y', w')"
      by (cases "step_back (y, w)")
    have yw: "y' = (if w = 1 then y - 1 else y)" "w' = (if w = 1 then 52 else w - 1)"
      using sb by (auto simp: step_back_def split: if_splits)
    have w_eq: "walk S y w k = walk S y' w' (k + 1)"
      using True sb by (simp add: walk_in)
    have ih: "walk S y' w' (k + 1) = k + 1 + int m \<longleftrightarrow>
        (\<forall>i<m. (step_back ^^ i) (y', w') |\<in>| S) \<and> (step_back ^^ m) (y', w') |\<notin>| S" for m
      using 1(1) [OF True, of m] 1(2) [OF True, of m] yw by (cases "w = 1") simp_all
    show ?thesis
    proof (cases n)
      case 0
      then show ?thesis
        using True w_eq walk_ge [of "k + 1" S y' w'] by simp
    next
      case (Suc m)
      have c1: "(\<forall>i<n. (step_back ^^ i) (y, w) |\<in>| S) \<longleftrightarrow>
            (\<forall>i<m. (step_back ^^ i) (y', w') |\<in>| S)"
        using True sb Suc by (auto simp: All_less_Suc2 funpow_swap1)
      have c2: "(step_back ^^ n) (y, w) = (step_back ^^ m) (y', w')"
        using sb Suc by (simp add: funpow_swap1)
      have a: "(walk S y w k = k + int n) = (walk S y' w' (k + 1) = k + 1 + int m)"
        using w_eq Suc by auto
      show ?thesis
        unfolding a c1 c2 by (rule ih)
    qed
  qed
qed

lemma walk_mono: "S |\<subseteq>| T \<Longrightarrow> walk S y w k \<le> walk T y w k"
proof (induction S y w k rule: walk.induct)
  case (1 S y w k)
  show ?case
  proof (cases "(y, w) |\<in>| S")
    case False
    then show ?thesis by (simp add: walk_out walk_ge)
  next
    case True
    then have inT: "(y, w) |\<in>| T" using 1(3) by blast
    show ?thesis
      using 1 True inT by (subst walk.simps, subst (2) walk.simps) (auto split: if_splits)
  qed
qed

lemma walk_bound: "walk S y w k \<le> k + int (fcard (ffilter (\<lambda>q. week_le q (y, w)) S))"
proof (induction S y w k rule: walk.induct)
  case (1 S y w k)
  show ?case
  proof (cases "(y, w) |\<in>| S")
    case False
    then show ?thesis by (simp add: walk_out)
  next
    case True
    obtain y' w' where sb: "step_back (y, w) = (y', w')"
      by (cases "step_back (y, w)")
    have yw: "y' = (if w = 1 then y - 1 else y)" "w' = (if w = 1 then 52 else w - 1)"
      using sb by (auto simp: step_back_def split: if_splits)
    have w_eq: "walk S y w k = walk S y' w' (k + 1)"
      using True sb by (simp add: walk_in)
    have ih: "walk S y' w' (k + 1) \<le> k + 1 + int (fcard (ffilter (\<lambda>q. week_le q (y', w')) S))"
      using 1(1) [OF True] 1(2) [OF True] yw by (cases "w = 1") simp_all
    have "ffilter (\<lambda>q. week_le q (y', w')) S |\<subseteq>| ffilter (\<lambda>q. week_le q (y, w)) S"
      using step_back_lt [of "(y, w)"] sb by (auto intro: week_le_trans)
    moreover have "(y, w) |\<in>| ffilter (\<lambda>q. week_le q (y, w)) S"
      using True by (simp add: week_le_def)
    moreover have "(y, w) |\<notin>| ffilter (\<lambda>q. week_le q (y', w')) S"
      using step_back_lt [of "(y, w)"] sb week_le_antisym by auto
    ultimately have "ffilter (\<lambda>q. week_le q (y', w')) S |\<subset>| ffilter (\<lambda>q. week_le q (y, w)) S"
      by blast
    then have "fcard (ffilter (\<lambda>q. week_le q (y', w')) S) < fcard (ffilter (\<lambda>q. week_le q (y, w)) S)"
      by (rule pfsubset_fcard_mono)
    then show ?thesis using ih w_eq by simp
  qed
qed

lemma walk_le_fcard: "walk S y w k \<le> k + int (fcard S)"
proof -
  have "ffilter (\<lambda>q. week_le q (y, w)) S |\<subseteq>| S" by auto
  then have "fcard (ffilter (\<lambda>q. week_le q (y, w)) S) \<le> fcard S"
    by (rule fcard_mono)
  then show ?thesis using walk_bound [of S y w k] by simp
qed

section \<open>Facts about the calculator\<close>

lemma collect_weeks_Inr:
  "collect_weeks ws A = Inr B \<Longrightarrow>
     (\<forall>w\<in>set ws. \<exists>r. week_of w = Inr r) \<and>
     fset B = fset A \<union> {p. \<exists>w\<in>set ws. week_of w = Inr (Some p)}"
proof (induction ws arbitrary: A)
  case Nil
  then show ?case by simp
next
  case (Cons w ws)
  show ?case
  proof (cases "week_of w")
    case (Inl e)
    then show ?thesis using Cons.prems by simp
  next
    case (Inr r)
    show ?thesis
    proof (cases r)
      case None
      then have "collect_weeks ws A = Inr B" using Cons.prems Inr by simp
      from Cons.IH [OF this] show ?thesis using Inr None by auto
    next
      case (Some p)
      then have "collect_weeks ws (finsert p A) = Inr B" using Cons.prems Inr by simp
      from Cons.IH [OF this] show ?thesis using Inr Some by auto
    qed
  qed
qed

lemma collect_weeks_total:
  "\<forall>w\<in>set ws. \<exists>r. week_of w = Inr r \<Longrightarrow> \<exists>B. collect_weeks ws A = Inr B"
proof (induction ws arbitrary: A)
  case Nil
  then show ?case by simp
next
  case (Cons w ws)
  then obtain r where r: "week_of w = Inr r" by auto
  have rest: "\<forall>w\<in>set ws. \<exists>r. week_of w = Inr r" using Cons.prems by simp
  show ?case
    using r Cons.IH [OF rest] by (cases r) simp_all
qed

lemma streak_of_weeks:
  "collect_weeks workouts {||} = Inr S \<Longrightarrow> S \<noteq> {||} \<Longrightarrow> utcnow_date clock = Inr today \<Longrightarrow>
     isocalendar today = (cy, cw, d) \<Longrightarrow>
     calculate_weekly_streak clock workouts = Inr (walk S cy cw 0)"
  by (simp add: calculate_weekly_streak_def)

lemma streak_Inr_cases:
  assumes "calculate_weekly_streak clock workouts = Inr n"
  obtains S where "collect_weeks workouts {||} = Inr S" "S = {||}" "n = 0"
  | S today cy cw d where "collect_weeks workouts {||} = Inr S" "S \<noteq> {||}"
      "utcnow_date clock = Inr today" "isocalendar today = (cy, cw, d)" "n = walk S cy cw 0"
  using assms unfolding calculate_weekly_streak_def
  by (auto split: sum.splits if_splits prod.splits)

lemma streak_nonneg: "calculate_weekly_streak clock workouts = Inr n \<Longrightarrow> 0 \<le> n"
  by (erule streak_Inr_cases) (simp_all add: walk_ge)

lemma streak_Inr_walk:
  "calculate_weekly_streak clock workouts = Inr b \<Longrightarrow> collect_weeks workouts {||} = Inr W \<Longrightarrow>
     W \<noteq> {||} \<Longrightarrow>
     \<exists>today cy cw d. utcnow_date clock = Inr today \<and> isocalendar today = (cy, cw, d) \<and>
        b = walk W cy cw 0"
  by (auto simp: calculate_weekly_streak_def split: sum.splits prod.splits)

subsection \<open>The model at some dates\<close>

lemma year_of_719163: "year_of 719163 = 1970"
  by (simp add: year_of_def)

lemma year_of_719159: "year_of 719159 = 1969"
  by (simp add: year_of_def)

lemma year_of_719193: "year_of 719193 = 1970"
  by (simp add: year_of_def)

lemma isoweek1monday_1969: "isoweek1monday 1969 = 718796"
  by (simp add: isoweek1monday_def days_before_year_def)

lemma isoweek1monday_1970: "isoweek1monday 1970 = 719160"
  by (simp add: isoweek1monday_def days_before_year_def)

lemma isoweek1monday_1971: "isoweek1monday 1971 = 719531"
  by (simp add: isoweek1monday_def days_before_year_def)

lemma isocalendar_719163: "isocalendar 719163 = (1970, 1, 4)"
  by (simp add: isocalendar_def year_of_719163 isoweek1monday_1970 isoweek1monday_1971)

lemma isocalendar_719159: "isocalendar 719159 = (1969, 52, 7)"
  by (simp add: isocalendar_def year_of_719159 isoweek1monday_1969 isoweek1monday_1970)

lemma isocalendar_719193: "isocalendar 719193 = (1970, 5, 6)"
  by (simp add: isocalendar_def year_of_719193 isoweek1monday_1970 isoweek1monday_1971)

lemma week_of_epoch: "week_of (JObj [(''start_time'', JInt 0)]) = Inr (Some (1970, 1))"
  by (simp add: week_of_def utcfromtimestamp_int_def isocalendar_719163)

lemma week_of_1969_12_28:
  "week_of (JObj [(''start_time'', JInt (- 345600))]) = Inr (Some (1969, 52))"
  by (simp add: week_of_def utcfromtimestamp_int_def isocalendar_719159)

lemma streak_epoch_at_epoch:
  "calculate_weekly_streak 0 [JObj [(''start_time'', JInt 0)]] = Inr 1"
  by (simp add: calculate_weekly_streak_def week_of_epoch utcnow_date_def
      utcfromtimestamp_int_def isocalendar_719163 walk.simps)

lemma streak_epoch_at_3600:
  "calculate_weekly_streak 3600 [JObj [(''start_time'', JInt 0)]] = Inr 1"
  by (simp add: calculate_weekly_streak_def week_of_epoch utcnow_date_def
      utcfromtimestamp_int_def isocalendar_719163 walk.simps)

lemma streak_epoch_at_day_30:
  "calculate_weekly_streak 2592000 [JObj [(''start_time'', JInt 0)]] = Inr 0"
  by (simp add: calculate_weekly_streak_def week_of_epoch utcnow_date_def
      utcfromtimestamp_int_def isocalendar_719193 walk.simps)

lemma streak_two_weeks_at_epoch:
  "calculate_weekly_streak 0
     [JObj [(''start_time'', JInt 0)], JObj [(''start_time'', JInt (- 345600))]] = Inr 2"
  by (simp add: calculate_weekly_streak_def week_of_epoch week_of_1969_12_28 utcnow_date_def
      utcfromtimestamp_int_def isocalendar_719163 walk.simps)

section \<open>The claims about the calculator\<close>

text \<open>
  Claim C2. The walk counts the weeks it finds, one step back at a time: started at
  \<open>(y, w)\<close> with the counter at \<open>streak\<close>, it returns \<open>streak + n\<close> exactly when the
  first \<open>n\<close> pairs reached by stepping back one week at a time (week 1 to week 52 of
  the prior year, otherwise the week number less one) are in the active-weeks set and the
  next one is not; and it always returns such a count.
\<close>

theorem walk_counts_weeks_back:
  "(walk S y w streak = streak + int n \<longleftrightarrow>
      (\<forall>i<n. (step_back ^^ i) (y, w) |\<in>| S) \<and> (step_back ^^ n) (y, w) |\<notin>| S)
   \<and> (\<exists>m. walk S y w streak = streak + int m)"
proof
  show "walk S y w streak = streak + int n \<longleftrightarrow>
      (\<forall>i<n. (step_back ^^ i) (y, w) |\<in>| S) \<and> (step_back ^^ n) (y, w) |\<notin>| S"
    by (rule walk_iff)
next
  have "walk S y w streak = streak + int (nat (walk S y w streak - streak))"
    using walk_ge [of streak S y w] by simp
  then show "\<exists>m. walk S y w streak = streak + int m" ..
qed

text \<open>Claim C2 at the set of week 1 of 2024 and week 52 of 2023: two weeks.\<close>

theorem walk_counts_weeks_back_witness:
  "(step_back ^^ 0) (2024, 1) |\<in>| {|(2024, 1), (2023, 52)|}
   \<and> (step_back ^^ 1) (2024, 1) |\<in>| {|(2024, 1), (2023, 52)|}
   \<and> (step_back ^^ 2) (2024, 1) |\<notin>| {|(2024, 1), (2023, 52)|}
   \<and> walk {|(2024, 1), (2023, 52)|} 2024 1 0 = 2"
proof -
  have h: "(\<forall>i<2. (step_back ^^ i) (2024, 1) |\<in>| {|(2024, 1), (2023, 52)|})
      \<and> (step_back ^^ 2) (2024, 1) |\<notin>| {|(2024, 1), (2023, 52)|}"
    by (simp add: numeral_2_eq_2 All_less_Suc step_back_def)
  then have "walk {|(2024, 1), (2023, 52)|} 2024 1 0 = 2"
    using walk_counts_weeks_back [of "{|(2024, 1), (2023, 52)|}" 2024 1 0 2] by simp
  then show ?thesis
    by (simp add: numeral_2_eq_2 step_back_def)
qed

text \<open>
  Claim C3 as stated fails: \<^verbatim>\<open>calculate_weekly_streak(workouts)\<close> has the records as
  its one parameter and reads the date from \<^verbatim>\<open>datetime.utcnow()\<close>, so the same
  argument gives different streaks at different readings of the clock.
\<close>

theorem streak_reads_clock_counterexample:
  "calculate_weekly_streak 0 [JObj [(''start_time'', JInt 0)]]
     \<noteq> calculate_weekly_streak 2592000 [JObj [(''start_time'', JInt 0)]]"
  by (simp add: streak_epoch_at_epoch streak_epoch_at_day_30)

text \<open>
  Claim C3, amended. The calculator takes the records as its one argument and reads the
  wall clock itself; what it returns is determined by the records and the UTC date of
  that reading: two readings with the same date give the same result.
\<close>

theorem streak_determined_by_date:
  "utcnow_date c1 = utcnow_date c2 \<Longrightarrow>
     calculate_weekly_streak c1 workouts = calculate_weekly_streak c2 workouts"
  by (auto simp: calculate_weekly_streak_def split: sum.splits)

text \<open>Claim C3, amended, at midnight and one hour later on 1970-01-01.\<close>

theorem streak_determined_by_date_witness:
  "utcnow_date 0 = utcnow_date 3600
   \<and> calculate_weekly_streak 0 [JObj [(''start_time'', JInt 0)]] = Inr 1
   \<and> calculate_weekly_streak 3600 [JObj [(''start_time'', JInt 0)]] = Inr 1"
proof -
  have h: "utcnow_date 0 = utcnow_date 3600"
    by (simp add: utcnow_date_def utcfromtimestamp_int_def)
  from streak_determined_by_date [OF h, of "[JObj [(''start_time'', JInt 0)]]"] h
  show ?thesis by (simp add: streak_epoch_at_epoch)
qed

lemma lacks_int_start_skipped: "lacks_int_start w \<Longrightarrow> week_of w = Inr None"
proof (cases w)
  case (JObj kvs)
  assume l: "lacks_int_start w"
  show ?thesis
  proof (cases "map_of kvs ''start_time''")
    case None
    then show ?thesis using JObj by (simp add: week_of_def)
  next
    case (Some ts)
    then show ?thesis using JObj l by (cases ts) (simp_all add: week_of_def)
  qed
qed simp_all

lemma week_of_year_10000:
  "week_of (JObj [(''start_time'', JInt 253402300800)]) = Inl ValueError"
  by (simp add: week_of_def utcfromtimestamp_int_def)

text \<open>
  Claim C7 as stated fails: a record whose start time is the integer 253402300800, the
  first second of the year 10000, yields no (year, week) pair, since the conversion to a
  date raises, and the calculator raises with it instead of returning 0.
\<close>

theorem no_valid_week_counterexample:
  "week_of (JObj [(''start_time'', JInt 253402300800)]) = Inl ValueError
   \<and> calculate_weekly_streak 0 [JObj [(''start_time'', JInt 253402300800)]] = Inl ValueError"
  by (simp add: calculate_weekly_streak_def week_of_year_10000)

text \<open>
  Claim C7, amended. For every input whose records are all dicts with a start time that
  is missing or not an integer, and in particular for the empty collection, the
  calculator returns 0 and raises nothing, whatever the clock.
\<close>

theorem skipped_records_give_zero:
  "((\<forall>w\<in>set workouts. lacks_int_start w) \<longrightarrow> calculate_weekly_streak clock workouts = Inr 0)
   \<and> calculate_weekly_streak clock [] = Inr 0"
proof -
  have "collect_weeks workouts {||} = Inr {||}" if h: "\<forall>w\<in>set workouts. lacks_int_start w"
  proof -
    from h have n: "\<forall>w\<in>set workouts. week_of w = Inr None"
      by (simp add: lacks_int_start_skipped)
    then have "\<forall>w\<in>set workouts. \<exists>r. week_of w = Inr r" by simp
    then obtain B where B: "collect_weeks workouts {||} = Inr B"
      using collect_weeks_total by blast
    from collect_weeks_Inr [OF B] n have "fset B = {}" by auto
    then show ?thesis using B by auto
  qed
  then show ?thesis by (simp add: calculate_weekly_streak_def)
qed

text \<open>Claim C7, amended, at three records: no start time, a string, and null.\<close>

theorem skipped_records_give_zero_witness:
  "lacks_int_start (JObj [])
   \<and> lacks_int_start (JObj [(''start_time'', JStr ''x'')])
   \<and> lacks_int_start (JObj [(''start_time'', JNull)])
   \<and> calculate_weekly_streak 0
        [JObj [], JObj [(''start_time'', JStr ''x'')], JObj [(''start_time'', JNull)]] = Inr 0"
proof -
  have h: "\<forall>w\<in>set [JObj [], JObj [(''start_time'', JStr ''x'')], JObj [(''start_time'', JNull)]].
       lacks_int_start w"
    by simp
  then have "calculate_weekly_streak 0
        [JObj [], JObj [(''start_time'', JStr ''x'')], JObj [(''start_time'', JNull)]] = Inr 0"
    using skipped_records_give_zero
      [of "[JObj [], JObj [(''start_time'', JStr ''x'')], JObj [(''start_time'', JNull)]]" 0]
    by blast
  then show ?thesis
    using h by simp
qed

text \<open>
  Claim C8. The streak is monotone in the records, the clock fixed: when every record of
  \<open>S\<close> is a record of \<open>T\<close> and the calculator returns a streak for \<open>T\<close>, it returns one
  for \<open>S\<close> too, and that one is not larger.
\<close>

theorem streak_monotone:
  assumes sub: "set S \<subseteq> set T" and T: "calculate_weekly_streak clock T = Inr b"
  shows "\<exists>a. calculate_weekly_streak clock S = Inr a \<and> a \<le> b"
proof -
  from T obtain WT where WT: "collect_weeks T {||} = Inr WT"
    by (rule streak_Inr_cases)
  from collect_weeks_Inr [OF WT] have okT: "\<forall>w\<in>set T. \<exists>r. week_of w = Inr r"
    and setT: "fset WT = {p. \<exists>w\<in>set T. week_of w = Inr (Some p)}" by auto
  from okT sub have "\<forall>w\<in>set S. \<exists>r. week_of w = Inr r" by blast
  then obtain WS where WS: "collect_weeks S {||} = Inr WS"
    using collect_weeks_total by blast
  from collect_weeks_Inr [OF WS] have "fset WS = {p. \<exists>w\<in>set S. week_of w = Inr (Some p)}"
    by auto
  with setT sub have le: "WS |\<subseteq>| WT" by (auto simp: less_eq_fset.rep_eq)
  show ?thesis
  proof (cases "WS = {||}")
    case True
    then have "calculate_weekly_streak clock S = Inr 0"
      using WS by (simp add: calculate_weekly_streak_def)
    moreover have "0 \<le> b"
      using T by (rule streak_nonneg)
    ultimately show ?thesis by simp
  next
    case False
    then have neT: "WT \<noteq> {||}" using le by auto
    from streak_Inr_walk [OF T WT neT] obtain today cy cw d where
      td: "utcnow_date clock = Inr today" "isocalendar today = (cy, cw, d)" "b = walk WT cy cw 0"
      by blast
    have "calculate_weekly_streak clock S = Inr (walk WS cy cw 0)"
      using WS False td by (simp add: streak_of_weeks)
    then show ?thesis using td walk_mono [OF le] by simp
  qed
qed

text \<open>Claim C8 at one record in the current week and one more in the week before.\<close>

theorem streak_monotone_witness:
  "set [JObj [(''start_time'', JInt 0)]]
     \<subseteq> set [JObj [(''start_time'', JInt 0)], JObj [(''start_time'', JInt (- 345600))]]
   \<and> calculate_weekly_streak 0
        [JObj [(''start_time'', JInt 0)], JObj [(''start_time'', JInt (- 345600))]] = Inr 2
   \<and> (\<exists>a. calculate_weekly_streak 0 [JObj [(''start_time'', JInt 0)]] = Inr a \<and> a \<le> 2)"
proof -
  have h1: "set [JObj [(''start_time'', JInt 0)]]
     \<subseteq> set [JObj [(''start_time'', JInt 0)], JObj [(''start_time'', JInt (- 345600))]]"
    by simp
  from streak_monotone [OF h1 streak_two_weeks_at_epoch] h1 streak_two_weeks_at_epoch
  show ?thesis by blast
qed

text \<open>
  Claim C9 as stated fails at the empty collection: each of its records (there is none)
  is in the current week, and the streak is 0.
\<close>

theorem current_week_only_counterexample:
  "list_all (in_current_week 0) [] \<and> calculate_weekly_streak 0 [] \<noteq> Inr 1"
  by (simp add: calculate_weekly_streak_def)

text \<open>
  Claim C9, amended. For every collection that is not empty and whose records all have
  the ISO (year, week) pair of the current week, the calculator returns exactly 1.
\<close>

theorem current_week_only_gives_one:
  assumes ne: "workouts \<noteq> []" and cur: "list_all (in_current_week clock) workouts"
  shows "calculate_weekly_streak clock workouts = Inr 1"
proof -
  from ne obtain w0 where w0: "w0 \<in> set workouts" by (cases workouts) auto
  with cur have "in_current_week clock w0" by (simp add: list_all_iff)
  then obtain today where t1: "utcnow_date clock = Inr today"
    by (auto simp: in_current_week_def split: sum.splits)
  obtain cy cw d where t2: "isocalendar today = (cy, cw, d)"
    by (cases "isocalendar today")
  note td = t1 t2
  have all: "\<forall>w\<in>set workouts. week_of w = Inr (Some (cy, cw))"
    using cur td by (auto simp: list_all_iff in_current_week_def)
  then have "\<forall>w\<in>set workouts. \<exists>r. week_of w = Inr r" by simp
  then obtain W where W: "collect_weeks workouts {||} = Inr W"
    using collect_weeks_total by blast
  from collect_weeks_Inr [OF W] all w0 have fW: "fset W = {(cy, cw)}" by auto
  then have W1: "W = {|(cy, cw)|}" by (metis bot_fset.rep_eq finsert.rep_eq fset_inject)
  have "walk W cy cw 0 = 0 + int 1"
    unfolding walk_iff using step_back_lt [of "(cy, cw)"] W1 by simp
  then show ?thesis
    using streak_of_weeks [OF W _ td] W1 by simp
qed

text \<open>Claim C9, amended, at a record of 1970-01-01 with the clock on that day.\<close>

theorem current_week_only_gives_one_witness:
  "[JObj [(''start_time'', JInt 0)]] \<noteq> [] \<and> list_all (in_current_week 0) [JObj [(''start_time'', JInt 0)]]
   \<and> calculate_weekly_streak 0 [JObj [(''start_time'', JInt 0)]] = Inr 1"
proof -
  have h: "list_all (in_current_week 0) [JObj [(''start_time'', JInt 0)]]"
    by (simp add: in_current_week_def utcnow_date_def utcfromtimestamp_int_def
        isocalendar_719163 week_of_epoch)
  have ne: "[JObj [(''start_time'', JInt 0)]] \<noteq> []" by simp
  from current_week_only_gives_one [OF ne h] h show ?thesis by simp
qed

text \<open>
  Claim C10. The loop ends (\<open>walk\<close> is a total function, its termination proved with
  the definition): the pairs it visits are pairwise distinct, the count it returns is at
  most the number of distinct pairs of the active-weeks set, and the streak the
  calculator returns is at most the number of distinct ISO week pairs of the records.
\<close>

theorem walk_terminates_within_weeks:
  "(\<forall>i j. i < j \<longrightarrow> (step_back ^^ i) (y, w) \<noteq> (step_back ^^ j) (y, w))
   \<and> walk S y w 0 \<le> int (fcard S)
   \<and> (calculate_weekly_streak clock workouts = Inr n \<longrightarrow>
        (\<exists>W. collect_weeks workouts {||} = Inr W \<and> n \<le> int (fcard W)))"
proof (intro conjI allI impI)
  fix i j :: nat
  assume "i < j"
  then show "(step_back ^^ i) (y, w) \<noteq> (step_back ^^ j) (y, w)"
    by (rule funpow_step_back_distinct)
next
  show "walk S y w 0 \<le> int (fcard S)"
    using walk_le_fcard [of S y w 0] by simp
next
  assume "calculate_weekly_streak clock workouts = Inr n"
  then show "\<exists>W. collect_weeks workouts {||} = Inr W \<and> n \<le> int (fcard W)"
  proof (cases rule: streak_Inr_cases)
    case (1 W)
    then show ?thesis by simp
  next
    case (2 W today cy cw d)
    then show ?thesis using walk_le_fcard [of W cy cw 0] by simp
  qed
qed

text \<open>Claim C10 at a record of 1970-01-01 with the clock on that day.\<close>

theorem walk_terminates_within_weeks_witness:
  "(step_back ^^ 0) (1970, 1) \<noteq> (step_back ^^ 1) (1970, 1)
   \<and> walk {|(1970, 1), (1969, 52)|} 1970 1 0 \<le> 2
   \<and> calculate_weekly_streak 0 [JObj [(''start_time'', JInt 0)]] = Inr 1
   \<and> (\<exists>W. collect_weeks [JObj [(''start_time'', JInt 0)]] {||} = Inr W \<and> 1 \<le> int (fcard W))"
proof -
  note t = walk_terminates_within_weeks
    [of 1970 1 "{|(1970, 1), (1969, 52)|}" 0 "[JObj [(''start_time'', JInt 0)]]" 1]
  from t have d: "(step_back ^^ 0) (1970, 1) \<noteq> (step_back ^^ 1) (1970, 1)"
    using zero_less_one by blast
  from t have b: "walk {|(1970, 1), (1969, 52)|} 1970 1 0 \<le> 2"
    by (simp add: fcard_finsert_if fcard_fempty)
  from t streak_epoch_at_epoch
  have c: "\<exists>W. collect_weeks [JObj [(''start_time'', JInt 0)]] {||} = Inr W \<and> 1 \<le> int (fcard W)"
    by blast
  show ?thesis using d b c streak_epoch_at_epoch by blast
qed

section \<open>Facts about the fetcher\<close>

lemma gap_from_iff:
  "gap_from today k ds \<longleftrightarrow> (\<exists>i<length ds. ds ! i \<noteq> today - (k + int i))"
proof (induction ds arbitrary: k)
  case Nil
  show ?case by simp
next
  case (Cons d ds)
  have "(\<exists>i<length (d # ds). (d # ds) ! i \<noteq> today - (k + int i)) \<longleftrightarrow>
        d \<noteq> today - k \<or> (\<exists>i<length ds. ds ! i \<noteq> today - (k + 1 + int i))"
    by (simp add: Ex_less_Suc2 algebra_simps)
  then show ?case using Cons.IH [of "k + 1"] by auto
qed

lemma gap_from_has_gap: "gap_from today 0 dates = has_gap today dates"
  by (simp add: gap_from_iff has_gap_def)

lemma loop_body_status:
  "status_code (cg limit page) \<noteq> 200 \<Longrightarrow>
     loop_body cg clock page ws =
       Raise (HTTPException 500 (''Failed to fetch workouts on page '' @ str_int page))"
  by (simp add: loop_body_def)

lemma page_dates_SomeD:
  assumes "page_dates cg clock p = Some (today, dates)"
  shows "\<exists>data items ds. status_code (cg limit (int p)) = 200 \<and>
      response_data (cg limit (int p)) = Inr data \<and> truthy data \<and> py_iter data = Inr items \<and>
      start_dates (fetched cg p @ items) = Inr ds \<and> utcnow_date (clock (int p)) = Inr today \<and>
      dates = sorted_desc ds \<and> fetched cg (Suc p) = fetched cg p @ items"
proof -
  have st: "status_code (cg limit (int p)) = 200"
    using assms by (auto simp: page_dates_def split: if_splits)
  obtain data where d: "response_data (cg limit (int p)) = Inr data"
    using assms st by (cases "response_data (cg limit (int p))") (simp_all add: page_dates_def)
  have t: "truthy data"
    using assms st d by (auto simp: page_dates_def split: if_splits)
  obtain items where it: "py_iter data = Inr items"
    using assms st d t by (cases "py_iter data") (simp_all add: page_dates_def)
  have f: "fetched cg (Suc p) = fetched cg p @ items"
    using d it by (simp add: page_records_def)
  obtain ds where sd: "start_dates (fetched cg (Suc p)) = Inr ds"
    using assms st d t it
    by (cases "start_dates (fetched cg (Suc p))") (simp_all add: page_dates_def del: fetched.simps)
  have "utcnow_date (clock (int p)) = Inr today \<and> dates = sorted_desc ds"
    using assms st d t it sd
    by (cases "utcnow_date (clock (int p))") (auto simp: page_dates_def simp del: fetched.simps)
  then show ?thesis using st d t it sd f by auto
qed

lemma page_empty_no_dates: "page_empty cg p \<Longrightarrow> page_dates cg clock p = None"
  by (cases "response_data (cg limit (int p))") (simp_all add: page_empty_def page_dates_def)

lemma loop_body_empty:
  "page_empty cg p \<Longrightarrow> loop_body cg clock (int p) ws = Return ws"
  by (cases "response_data (cg limit (int p))") (simp_all add: page_empty_def loop_body_def)

lemma loop_body_dates:
  assumes "page_dates cg clock p = Some (today, dates)"
  shows "loop_body cg clock (int p) (fetched cg p) =
       (if has_gap today dates then Return (fetched cg (Suc p)) else Next (fetched cg (Suc p)))"
proof -
  from page_dates_SomeD [OF assms] obtain data items ds where
    "status_code (cg limit (int p)) = 200" "response_data (cg limit (int p)) = Inr data"
    "truthy data" "py_iter data = Inr items" "start_dates (fetched cg p @ items) = Inr ds"
    "utcnow_date (clock (int p)) = Inr today" "dates = sorted_desc ds"
    "fetched cg (Suc p) = fetched cg p @ items"
    by blast
  then show ?thesis
    by (simp add: loop_body_def gap_from_has_gap del: fetched.simps)
qed

lemma loop_body_raises:
  assumes ne: "\<not> page_empty cg p" and no: "page_dates cg clock p = None"
  shows "\<exists>e. loop_body cg clock (int p) (fetched cg p) = Raise e"
proof (cases "status_code (cg limit (int p)) = 200")
  case False
  then show ?thesis by (simp add: loop_body_status)
next
  case st: True
  show ?thesis
  proof (cases "response_data (cg limit (int p))")
    case (Inl e)
    then show ?thesis using st by (simp add: loop_body_def)
  next
    case d: (Inr data)
    then have t: "truthy data" using ne st by (simp add: page_empty_def)
    show ?thesis
    proof (cases "py_iter data")
      case (Inl e)
      then show ?thesis using st d t by (simp add: loop_body_def)
    next
      case it: (Inr items)
      have f: "fetched cg (Suc p) = fetched cg p @ items"
        using d it by (simp add: page_records_def)
      show ?thesis
      proof (cases "start_dates (fetched cg p @ items)")
        case (Inl e)
        then show ?thesis using st d t it by (simp add: loop_body_def)
      next
        case sd: (Inr ds)
        show ?thesis
        proof (cases "utcnow_date (clock (int p))")
          case (Inl e)
          then show ?thesis using st d t it sd by (simp add: loop_body_def)
        next
          case (Inr today)
          then have "page_dates cg clock p = Some (today, sorted_desc ds)"
            using st d t it sd f by (simp add: page_dates_def)
          then show ?thesis using no by simp
        qed
      qed
    qed
  qed
qed

lemma loop_body_Next_iff:
  "loop_body cg clock (int q) (fetched cg q) = Next ws \<longleftrightarrow>
     page_continues cg clock q \<and> ws = fetched cg (Suc q)"
proof (cases "page_dates cg clock q")
  case None
  show ?thesis
  proof (cases "page_empty cg q")
    case True
    then show ?thesis using None by (simp add: loop_body_empty page_continues_def)
  next
    case False
    from loop_body_raises [OF False None] show ?thesis
      using None by (auto simp: page_continues_def)
  qed
next
  case (Some td)
  obtain today dates where td: "td = (today, dates)" by (cases td)
  show ?thesis
    using loop_body_dates [of cg clock q today dates] Some td
    by (auto simp: page_continues_def simp del: fetched.simps)
qed

lemma loop_body_Return_iff:
  "loop_body cg clock (int q) (fetched cg q) = Return ws \<longleftrightarrow>
     (page_empty cg q \<and> ws = fetched cg q) \<or> (page_gap cg clock q \<and> ws = fetched cg (Suc q))"
proof (cases "page_dates cg clock q")
  case None
  show ?thesis
  proof (cases "page_empty cg q")
    case True
    then show ?thesis using None by (auto simp: loop_body_empty page_gap_def)
  next
    case False
    from loop_body_raises [OF False None] show ?thesis
      using None False by (auto simp: page_gap_def)
  qed
next
  case (Some td)
  obtain today dates where td: "td = (today, dates)" by (cases td)
  have "\<not> page_empty cg q"
    using Some page_empty_no_dates [of cg q clock] by auto
  then show ?thesis
    using loop_body_dates [of cg clock q today dates] Some td
    by (auto simp: page_gap_def simp del: fetched.simps)
qed

lemma fetch_loop_skip:
  "(\<forall>q<p. page_continues cg clock q) \<Longrightarrow>
     fetch_loop cg clock 0 [] = fetch_loop cg clock (int p) (fetched cg p)"
proof (induction p)
  case 0
  show ?case by simp
next
  case (Suc p)
  then have "page_continues cg clock p" by simp
  then have nx: "loop_body cg clock (int p) (fetched cg p) = Next (fetched cg (Suc p))"
    by (simp add: loop_body_Next_iff del: fetched.simps)
  have "fetch_loop cg clock 0 [] = fetch_loop cg clock (int p) (fetched cg p)"
    using Suc by simp
  also have "\<dots> = fetch_loop cg clock (int p + 1) (fetched cg (Suc p))"
    by (subst fetch_loop.simps) (simp only: nx flow.case)
  finally show ?case by (simp add: add.commute del: fetched.simps)
qed

lemma fetch_loop_result:
  assumes run: "fetch_loop cg0 clock0 page0 acc0 = Some r0"
  shows "\<forall>p. page0 = int p \<longrightarrow> acc0 = fetched cg0 p \<longrightarrow>
        (\<exists>n. p \<le> n \<and> (\<forall>q. p \<le> q \<and> q < n \<longrightarrow> page_continues cg0 clock0 q) \<and>
          (case loop_body cg0 clock0 (int n) (fetched cg0 n) of
             Raise e \<Rightarrow> r0 = Inl e
           | Return ws \<Rightarrow> r0 = Inr ws
           | Next ws \<Rightarrow> False))"
proof -
  define P where "P = (\<lambda>cg clock page acc r.
      \<forall>p. page = int p \<longrightarrow> acc = fetched cg p \<longrightarrow>
        (\<exists>n. p \<le> n \<and> (\<forall>q. p \<le> q \<and> q < n \<longrightarrow> page_continues cg clock q) \<and>
          (case loop_body cg clock (int n) (fetched cg n) of
             Raise e \<Rightarrow> r = Inl e
           | Return ws \<Rightarrow> r = Inr ws
           | Next ws \<Rightarrow> False)))"
  have "P cg0 clock0 page0 acc0 r0"
  proof (rule fetch_loop.raw_induct [where P = P, OF _ run])
    fix f :: "server \<Rightarrow> (int \<Rightarrow> int) \<Rightarrow> int \<Rightarrow> jval list \<Rightarrow> (error + jval list) option"
      and cg clock page acc r
    assume IH: "\<And>cg clock page acc r. f cg clock page acc = Some r \<Longrightarrow> P cg clock page acc r"
      and body: "(case loop_body cg clock page acc of
                    Raise e \<Rightarrow> Some (Inl e)
                  | Return ws \<Rightarrow> Some (Inr ws)
                  | Next ws \<Rightarrow> f cg clock (page + 1) ws) = Some r"
    show "P cg clock page acc r"
      unfolding P_def
    proof (intro allI impI)
      fix p
      assume pg: "page = int p" and ac: "acc = fetched cg p"
      show "\<exists>n. p \<le> n \<and> (\<forall>q. p \<le> q \<and> q < n \<longrightarrow> page_continues cg clock q) \<and>
            (case loop_body cg clock (int n) (fetched cg n) of
               Raise e \<Rightarrow> r = Inl e
             | Return ws \<Rightarrow> r = Inr ws
             | Next ws \<Rightarrow> False)"
      proof (cases "loop_body cg clock (int p) (fetched cg p)")
        case (Raise e)
        then have "r = Inl e" using body pg ac by simp
        then show ?thesis using Raise by (intro exI [of _ p]) auto
      next
        case (Return ws)
        then have "r = Inr ws" using body pg ac by simp
        then show ?thesis using Return by (intro exI [of _ p]) auto
      next
        case (Next ws)
        then have c: "page_continues cg clock p" and ws: "ws = fetched cg (Suc p)"
          by (simp_all add: loop_body_Next_iff del: fetched.simps)
        have "f cg clock (int (Suc p)) (fetched cg (Suc p)) = Some r"
          using body Next pg ac ws by (simp add: add.commute del: fetched.simps)
        from IH [OF this] obtain n where n: "Suc p \<le> n"
            "\<forall>q. Suc p \<le> q \<and> q < n \<longrightarrow> page_continues cg clock q"
            "(case loop_body cg clock (int n) (fetched cg n) of
               Raise e \<Rightarrow> r = Inl e
             | Return ws \<Rightarrow> r = Inr ws
             | Next ws \<Rightarrow> False)"
          unfolding P_def by blast
        have "\<forall>q. p \<le> q \<and> q < n \<longrightarrow> page_continues cg clock q"
        proof (intro allI impI)
          fix q assume "p \<le> q \<and> q < n"
          then have "q = p \<or> (Suc p \<le> q \<and> q < n)" by auto
          then show "page_continues cg clock q" using c n(2) by blast
        qed
        then show ?thesis using n(1) n(3) by (intro exI [of _ n]) auto
      qed
    qed
  qed
  then show ?thesis unfolding P_def .
qed

section \<open>The claims about the fetcher\<close>

lemma fetch_returns_run_iff:
  "fetch_workouts_for_streak cg clock = Some (Inr ws) \<longleftrightarrow>
     (\<exists>p. (\<forall>q<p. page_continues cg clock q) \<and>
          ((page_empty cg p \<and> ws = fetched cg p) \<or>
           (page_gap cg clock p \<and> ws = fetched cg (Suc p))))"
proof
  assume "fetch_workouts_for_streak cg clock = Some (Inr ws)"
  then have run: "fetch_loop cg clock (int 0) (fetched cg 0) = Some (Inr ws)"
    by (simp add: fetch_workouts_for_streak_def)
  from fetch_loop_result [OF run]
  obtain n where n0: "\<forall>q. 0 \<le> q \<and> q < n \<longrightarrow> page_continues cg clock q"
    and cs: "case loop_body cg clock (int n) (fetched cg n) of
               Raise e \<Rightarrow> (Inr ws :: error + jval list) = Inl e
             | Return ws' \<Rightarrow> (Inr ws :: error + jval list) = Inr ws'
             | Next ws' \<Rightarrow> False"
    by blast
  from n0 have n: "\<forall>q<n. page_continues cg clock q" by simp
  from cs have rt: "loop_body cg clock (int n) (fetched cg n) = Return ws"
    by (cases "loop_body cg clock (int n) (fetched cg n)") simp_all
  from rt have "(page_empty cg n \<and> ws = fetched cg n) \<or>
      (page_gap cg clock n \<and> ws = fetched cg (Suc n))"
    by (simp only: loop_body_Return_iff)
  then show "\<exists>p. (\<forall>q<p. page_continues cg clock q) \<and>
          ((page_empty cg p \<and> ws = fetched cg p) \<or>
           (page_gap cg clock p \<and> ws = fetched cg (Suc p)))"
    using n by blast
next
  assume "\<exists>p. (\<forall>q<p. page_continues cg clock q) \<and>
          ((page_empty cg p \<and> ws = fetched cg p) \<or>
           (page_gap cg clock p \<and> ws = fetched cg (Suc p)))"
  then obtain p where c: "\<forall>q<p. page_continues cg clock q"
    and r: "(page_empty cg p \<and> ws = fetched cg p) \<or>
           (page_gap cg clock p \<and> ws = fetched cg (Suc p))"
    by blast
  from r have rt: "loop_body cg clock (int p) (fetched cg p) = Return ws"
    by (simp only: loop_body_Return_iff)
  have "fetch_loop cg clock 0 [] = fetch_loop cg clock (int p) (fetched cg p)"
    using c by (rule fetch_loop_skip)
  also have "\<dots> = Some (Inr ws)"
    by (subst fetch_loop.simps) (simp only: rt flow.case)
  finally show "fetch_workouts_for_streak cg clock = Some (Inr ws)"
    by (simp add: fetch_workouts_for_streak_def)
qed


subsection \<open>The claims at the example listings\<close>

lemma ok_page_data: "response_data (ok_page records) = Inr (JArr records)"
  by (simp add: ok_page_def response_data_def res_json_def)

lemma ok_page_status: "status_code (ok_page records) = 200"
  by (simp add: ok_page_def)


lemma utcnow_date_0: "utcnow_date 0 = Inr 719163"
  by (simp add: utcnow_date_def utcfromtimestamp_int_def)



text \<open>
  Claim C4 fails in the fetcher. Lines 114 to 117 test only that the record is a dict
  with a \<^verbatim>\<open>start_time\<close> key, not that the value is an integer as line 67 does: a
  record whose start time is \<^verbatim>\<open>null\<close> makes \<^verbatim>\<open>utcfromtimestamp\<close> raise a TypeError
  and the fetch fails, where the calculator skips the same record and returns 0.
\<close>

theorem fetcher_raises_on_null_start_time:
  "fetch_workouts_for_streak null_start (\<lambda>_. 0) = Some (Inl TypeError)
   \<and> calculate_weekly_streak 0 [JObj [(''start_time'', JNull)]] = Inr 0"
proof -
  have "loop_body null_start (\<lambda>_. 0) 0 [] = Raise TypeError"
    by (simp add: loop_body_def null_start_def ok_page_data ok_page_status)
  then have "fetch_loop null_start (\<lambda>_. 0) 0 [] = Some (Inl TypeError)"
    by (subst fetch_loop.simps) simp
  moreover have "calculate_weekly_streak 0 [JObj [(''start_time'', JNull)]] = Inr 0"
    by (simp add: calculate_weekly_streak_def week_of_def)
  ultimately show ?thesis
    by (simp add: fetch_workouts_for_streak_def)
qed

section \<open>The fetcher and the words of the specification\<close>

lemma items_of_truthy:
  "items_of data =
     (if truthy data then (case py_iter data of Inl e \<Rightarrow> None | Inr xs \<Rightarrow> Some xs) else Some [])"
  by (cases data) auto

lemma py_iter_nonempty: "truthy data \<Longrightarrow> py_iter data = Inr xs \<Longrightarrow> xs \<noteq> []"
  by (cases data) auto

lemma py_iter_falsy:
  "\<not> truthy data \<Longrightarrow> (case py_iter data of Inl e \<Rightarrow> [] | Inr xs \<Rightarrow> xs) = []"
  by (cases data) auto

lemma page_items_data:
  assumes "status_code res = 200" and "response_data res = Inr data"
  shows "page_items res = items_of data"
proof -
  from assms(2) obtain body where b: "json_body res = Some body"
    and g: "py_get_default body ''data'' (JArr []) = Inr data"
    by (cases "json_body res") (auto simp: response_data_def res_json_def)
  from g obtain kvs where k: "body = JObj kvs" by (cases body) auto
  show ?thesis
    using assms(1) b g k by (cases "map_of kvs ''data''") (auto simp: page_items_def)
qed

lemma page_items_no_data:
  assumes "response_data res = Inl e"
  shows "page_items res = None"
proof (cases "json_body res")
  case None
  then show ?thesis by (simp add: page_items_def)
next
  case (Some body)
  then have "py_get_default body ''data'' (JArr []) = Inl e"
    using assms by (simp add: response_data_def res_json_def)
  then show ?thesis using Some by (cases body) (auto simp: page_items_def)
qed

lemma page_items_status: "page_items res = Some xs \<Longrightarrow> status_code res = 200"
  by (auto simp: page_items_def split: if_splits)

lemma page_items_SomeD:
  assumes "page_items res = Some xs"
  shows "status_code res = 200 \<and> (\<exists>data. response_data res = Inr data \<and> items_of data = Some xs)"
proof -
  have st: "status_code res = 200" using assms by (rule page_items_status)
  show ?thesis
  proof (cases "response_data res")
    case (Inl e)
    then show ?thesis using assms page_items_no_data by fastforce
  next
    case (Inr data)
    then show ?thesis using assms st page_items_data by fastforce
  qed
qed

lemma page_records_items:
  assumes "status_code res = 200"
  shows "page_records res = (case page_items res of None \<Rightarrow> [] | Some xs \<Rightarrow> xs)"
proof (cases "response_data res")
  case (Inl e)
  then show ?thesis by (simp add: page_records_def page_items_no_data)
next
  case (Inr data)
  show ?thesis
  proof (cases "truthy data")
    case True
    then show ?thesis
      using Inr assms
      by (cases "py_iter data") (simp_all add: page_records_def page_items_data items_of_truthy)
  next
    case False
    then show ?thesis
      using Inr assms py_iter_falsy [OF False]
      by (simp add: page_records_def page_items_data items_of_truthy)
  qed
qed

lemma empty_page_iff: "empty_page cg p = page_empty cg p"
proof
  assume "empty_page cg p"
  then have i: "page_items (cg limit (int p)) = Some []" by (simp add: empty_page_def)
  from page_items_SomeD [OF i] obtain data where st: "status_code (cg limit (int p)) = 200"
    and d: "response_data (cg limit (int p)) = Inr data" and it: "items_of data = Some []"
    by blast
  have "\<not> truthy data"
  proof
    assume t: "truthy data"
    then show False using it py_iter_nonempty [OF t]
      by (cases "py_iter data") (simp_all add: items_of_truthy)
  qed
  then show "page_empty cg p" using st d by (simp add: page_empty_def)
next
  assume "page_empty cg p"
  then obtain data where st: "status_code (cg limit (int p)) = 200"
    and d: "response_data (cg limit (int p)) = Inr data" and f: "\<not> truthy data"
    by (cases "response_data (cg limit (int p))") (auto simp: page_empty_def)
  then show "empty_page cg p"
    by (simp add: empty_page_def page_items_data items_of_truthy)
qed

lemma start_dates_step:
  "start_dates (w # ws) =
     (case stamp_of w of
        None \<Rightarrow> start_dates ws
      | Some ts \<Rightarrow>
          (case utcfromtimestamp ts of
             Inl e \<Rightarrow> Inl e
           | Inr d \<Rightarrow> (case start_dates ws of Inl e \<Rightarrow> Inl e | Inr ds \<Rightarrow> Inr (d # ds))))"
  by (cases w) (simp_all add: stamp_of_def split: option.splits)

lemma start_dates_readable:
  "dates_readable ws \<Longrightarrow> start_dates ws = Inr (date_list ws)"
proof (induction ws)
  case Nil
  show ?case by (simp add: date_list_def List.map_filter_simps)
next
  case (Cons w ws)
  then have r: "start_dates ws = Inr (date_list ws)" by (simp add: dates_readable_def)
  show ?case
  proof (cases "stamp_of w")
    case None
    then show ?thesis
      using r by (simp add: start_dates_step date_list_def List.map_filter_simps del: start_dates.simps)
  next
    case (Some ts)
    then obtain d where "utcfromtimestamp ts = Inr d"
      using Cons.prems by (cases "utcfromtimestamp ts") (simp_all add: dates_readable_def)
    then show ?thesis
      using r Some
      by (simp add: start_dates_step date_list_def List.map_filter_simps del: start_dates.simps)
  qed
qed

lemma start_dates_Inr:
  "start_dates ws = Inr ds \<Longrightarrow> dates_readable ws"
proof (induction ws arbitrary: ds)
  case Nil
  show ?case by (simp add: dates_readable_def)
next
  case (Cons w ws)
  show ?case
  proof (cases "stamp_of w")
    case None
    then have "start_dates ws = Inr ds"
      using Cons.prems by (simp add: start_dates_step del: start_dates.simps)
    from Cons.IH [OF this] show ?thesis using None by (simp add: dates_readable_def)
  next
    case (Some ts)
    show ?thesis
    proof (cases "utcfromtimestamp ts")
      case (Inl e)
      then show ?thesis
        using Cons.prems Some by (simp add: start_dates_step del: start_dates.simps)
    next
      case (Inr d)
      then obtain ds' where "start_dates ws = Inr ds'"
        using Cons.prems Some
        by (cases "start_dates ws") (simp_all add: start_dates_step del: start_dates.simps)
      from Cons.IH [OF this] show ?thesis using Some Inr by (simp add: dates_readable_def)
    qed
  qed
qed

lemma sorted_desc_set: "sorted_desc ds = rev (sorted_list_of_set (set ds))"
  by (simp add: sorted_desc_def sorted_list_of_set_sort_remdups)

lemma dates_desc_descending:
  "sorted_wrt (\<lambda>a b. b < a) (dates_desc ws) \<and> set (dates_desc ws) = set (date_list ws)"
  by (simp add: dates_desc_def sorted_wrt_rev)

lemma fetched_Suc_items:
  assumes acc: "accumulated cg p = fetched cg p"
    and st: "status_code (cg limit (int p)) = 200"
  shows "accumulated cg (Suc p) = fetched cg (Suc p)"
  using acc by (simp add: page_records_items [OF st])

lemma page_dates_appended:
  assumes acc: "accumulated cg p = fetched cg p"
  shows "page_dates cg clock p = Some (today, dates) \<longleftrightarrow>
     appended cg clock p = Some today \<and> dates = dates_desc (accumulated cg (Suc p))"
proof
  assume pd: "page_dates cg clock p = Some (today, dates)"
  from page_dates_SomeD [OF pd] obtain data items ds where
    st: "status_code (cg limit (int p)) = 200"
    and d: "response_data (cg limit (int p)) = Inr data"
    and t: "truthy data" and it: "py_iter data = Inr items"
    and sd: "start_dates (fetched cg p @ items) = Inr ds"
    and un: "utcnow_date (clock (int p)) = Inr today"
    and ds: "dates = sorted_desc ds" and f: "fetched cg (Suc p) = fetched cg p @ items"
    by blast
  have pi: "page_items (cg limit (int p)) = Some items"
    using st d t it by (simp add: page_items_data items_of_truthy)
  have ne: "items \<noteq> []" using t it by (rule py_iter_nonempty)
  have a: "accumulated cg (Suc p) = fetched cg p @ items"
    using fetched_Suc_items [OF acc st] f by simp
  have rd: "dates_readable (accumulated cg (Suc p))"
    using sd a start_dates_Inr by simp
  have "ds = date_list (accumulated cg (Suc p))"
    using start_dates_readable [OF rd] sd a by simp
  then have "dates = dates_desc (accumulated cg (Suc p))"
    using ds by (simp add: sorted_desc_set dates_desc_def)
  moreover have "appended cg clock p = Some today"
    using pi ne rd un by (cases items) (simp_all add: appended_def del: accumulated.simps)
  ultimately show "appended cg clock p = Some today \<and> dates = dates_desc (accumulated cg (Suc p))"
    by simp
next
  assume r: "appended cg clock p = Some today \<and> dates = dates_desc (accumulated cg (Suc p))"
  then have ap: "appended cg clock p = Some today" by simp
  obtain items where pi: "page_items (cg limit (int p)) = Some items" and ne: "items \<noteq> []"
    using ap
    by (cases "page_items (cg limit (int p))")
       (auto simp: appended_def split: list.splits simp del: accumulated.simps)
  have rd: "dates_readable (accumulated cg (Suc p))"
    using ap pi ne
    by (cases items) (auto simp: appended_def split: if_splits simp del: accumulated.simps)
  have un: "utcnow_date (clock (int p)) = Inr today"
    using ap pi ne rd
    by (cases items; cases "utcnow_date (clock (int p))")
       (auto simp: appended_def simp del: accumulated.simps)
  from page_items_SomeD [OF pi] obtain data where st: "status_code (cg limit (int p)) = 200"
    and d: "response_data (cg limit (int p)) = Inr data" and io: "items_of data = Some items"
    by blast
  have t: "truthy data"
    using io ne by (cases "truthy data") (simp_all add: items_of_truthy)
  have it: "py_iter data = Inr items"
    using io t by (cases "py_iter data") (simp_all add: items_of_truthy)
  have a: "accumulated cg (Suc p) = fetched cg (Suc p)"
    using fetched_Suc_items [OF acc st] .
  have sd: "start_dates (fetched cg (Suc p)) = Inr (date_list (accumulated cg (Suc p)))"
    using start_dates_readable [OF rd] a by simp
  have "page_dates cg clock p
      = Some (today, sorted_desc (date_list (accumulated cg (Suc p))))"
    using st d t it sd un by (simp add: page_dates_def del: fetched.simps accumulated.simps)
  then show "page_dates cg clock p = Some (today, dates)"
    using r by (simp add: sorted_desc_set dates_desc_def del: accumulated.simps)
qed

lemma no_gap_after_iff:
  assumes acc: "accumulated cg p = fetched cg p"
  shows "no_gap_after cg clock p = page_continues cg clock p"
proof (cases "appended cg clock p")
  case None
  have "page_dates cg clock p = None"
  proof (cases "page_dates cg clock p")
    case (Some td)
    obtain today dates where "td = (today, dates)" by (cases td)
    then show ?thesis using Some None page_dates_appended [OF acc, of clock today dates] by simp
  qed simp
  then show ?thesis using None by (simp add: no_gap_after_def page_continues_def)
next
  case (Some today)
  then have "page_dates cg clock p = Some (today, dates_desc (accumulated cg (Suc p)))"
    using page_dates_appended [OF acc, of clock today] by simp
  then show ?thesis
    using Some by (simp add: no_gap_after_def page_continues_def del: accumulated.simps)
qed

lemma gap_after_iff:
  assumes acc: "accumulated cg p = fetched cg p"
  shows "gap_after cg clock p = page_gap cg clock p"
proof (cases "appended cg clock p")
  case None
  have "page_dates cg clock p = None"
  proof (cases "page_dates cg clock p")
    case (Some td)
    obtain today dates where "td = (today, dates)" by (cases td)
    then show ?thesis using Some None page_dates_appended [OF acc, of clock today dates] by simp
  qed simp
  then show ?thesis using None by (simp add: gap_after_def page_gap_def)
next
  case (Some today)
  then have "page_dates cg clock p = Some (today, dates_desc (accumulated cg (Suc p)))"
    using page_dates_appended [OF acc, of clock today] by simp
  then show ?thesis
    using Some by (simp add: gap_after_def page_gap_def del: accumulated.simps)
qed

lemma no_gap_after_status: "no_gap_after cg clock p \<Longrightarrow> status_code (cg limit (int p)) = 200"
  by (cases "page_items (cg limit (int p))")
     (auto simp: no_gap_after_def appended_def dest: page_items_status
        simp del: accumulated.simps)

lemma gap_after_status: "gap_after cg clock p \<Longrightarrow> status_code (cg limit (int p)) = 200"
  by (cases "page_items (cg limit (int p))")
     (auto simp: gap_after_def appended_def dest: page_items_status
        simp del: accumulated.simps)

lemma accumulated_fetched:
  "(\<forall>q<p. no_gap_after cg clock q) \<Longrightarrow> accumulated cg p = fetched cg p"
proof (induction p)
  case 0
  show ?case by simp
next
  case (Suc p)
  then have acc: "accumulated cg p = fetched cg p" by simp
  have "no_gap_after cg clock p" using Suc.prems by simp
  then have "status_code (cg limit (int p)) = 200" by (rule no_gap_after_status)
  then show ?case by (rule fetched_Suc_items [OF acc])
qed

lemma prefix_no_gap:
  "(\<forall>q<p. no_gap_after cg clock q) \<longleftrightarrow> (\<forall>q<p. page_continues cg clock q)"
proof (induction p)
  case 0
  show ?case by simp
next
  case (Suc p)
  show ?case
  proof (cases "\<forall>q<p. no_gap_after cg clock q")
    case True
    then have "no_gap_after cg clock p = page_continues cg clock p"
      using accumulated_fetched no_gap_after_iff by blast
    then show ?thesis using Suc True by (simp add: All_less_Suc)
  next
    case False
    then show ?thesis using Suc by (auto simp: All_less_Suc)
  qed
qed

text \<open>
  Claim C1. The fetcher takes the pages in order from index 0, appending the records of
  each, and it returns records exactly in two cases: a page \<open>p\<close> is fetched and holds no
  records, every page before it having been appended without a gap, and the records of
  the pages before \<open>p\<close> are returned; or page \<open>p\<close> is appended and some index \<open>i\<close> into the
  distinct calendar dates of all accumulated workouts, sorted descending, has a date
  other than today less \<open>i\<close> days, and the records through page \<open>p\<close> are returned at that
  point. The list of dates is strictly descending and has exactly the dates of the
  workouts.
\<close>

theorem fetcher_returns_exactly:
  "(fetch_workouts_for_streak cg clock = Some (Inr ws) \<longleftrightarrow>
     (\<exists>p. (\<forall>q<p. no_gap_after cg clock q) \<and>
          ((empty_page cg p \<and> ws = accumulated cg p) \<or>
           (gap_after cg clock p \<and> ws = accumulated cg (Suc p)))))
   \<and> sorted_wrt (\<lambda>a b. b < a) (dates_desc xs) \<and> set (dates_desc xs) = set (date_list xs)"
proof -
  have "(\<exists>p. (\<forall>q<p. no_gap_after cg clock q) \<and>
          ((empty_page cg p \<and> ws = accumulated cg p) \<or>
           (gap_after cg clock p \<and> ws = accumulated cg (Suc p)))) \<longleftrightarrow>
        (\<exists>p. (\<forall>q<p. page_continues cg clock q) \<and>
          ((page_empty cg p \<and> ws = fetched cg p) \<or>
           (page_gap cg clock p \<and> ws = fetched cg (Suc p))))"
  proof (intro iff_exI)
    fix p
    show "((\<forall>q<p. no_gap_after cg clock q) \<and>
          ((empty_page cg p \<and> ws = accumulated cg p) \<or>
           (gap_after cg clock p \<and> ws = accumulated cg (Suc p)))) \<longleftrightarrow>
        ((\<forall>q<p. page_continues cg clock q) \<and>
          ((page_empty cg p \<and> ws = fetched cg p) \<or>
           (page_gap cg clock p \<and> ws = fetched cg (Suc p))))"
    proof (cases "\<forall>q<p. no_gap_after cg clock q")
      case False
      then have "\<not> (\<forall>q<p. page_continues cg clock q)"
        using prefix_no_gap [of p cg clock] by simp
      with False show ?thesis by blast
    next
      case True
      then have c: "\<forall>q<p. page_continues cg clock q" using prefix_no_gap [of p cg clock] by simp
      have acc: "accumulated cg p = fetched cg p" using True by (rule accumulated_fetched)
      have g: "gap_after cg clock p = page_gap cg clock p" using acc by (rule gap_after_iff)
      have "accumulated cg (Suc p) = fetched cg (Suc p)" if "gap_after cg clock p"
        using fetched_Suc_items [OF acc gap_after_status [OF that]] .
      then show ?thesis
        using True c acc g empty_page_iff [of cg p] by (auto simp del: accumulated.simps fetched.simps)
    qed
  qed
  then show ?thesis
    using fetch_returns_run_iff [of cg clock ws] dates_desc_descending [of xs] by simp
qed

lemma page_items_ok_page: "page_items (ok_page records) = Some records"
  by (simp add: page_items_def ok_page_def)

lemma dates_desc_sort: "dates_desc ws = rev (sort (remdups (date_list ws)))"
  by (simp add: dates_desc_def sorted_list_of_set_sort_remdups)

lemma date_list_first_page: "date_list first_page = [719163, 719162, 719163]"
  by (simp add: date_list_def List.map_filter_simps stamp_of_def utcfromtimestamp_int_def
      first_page_def)

lemma date_list_both_pages:
  "date_list (first_page @ second_page) = [719163, 719162, 719163, 719160, 719162]"
  by (simp add: date_list_def List.map_filter_simps stamp_of_def utcfromtimestamp_int_def
      first_page_def second_page_def)

lemma dates_readable_first_page: "dates_readable first_page"
  by (simp add: dates_readable_def stamp_of_def utcfromtimestamp_int_def first_page_def)

lemma dates_readable_both_pages: "dates_readable (first_page @ second_page)"
  by (simp add: dates_readable_def stamp_of_def utcfromtimestamp_int_def first_page_def
      second_page_def)

lemma dates_desc_first_page: "dates_desc first_page = [719163, 719162]"
  by (simp add: dates_desc_sort date_list_first_page)

lemma dates_desc_both_pages: "dates_desc (first_page @ second_page) = [719163, 719162, 719160]"
  by (simp add: dates_desc_sort date_list_both_pages)

lemma first_page_Cons: "\<exists>x xs. first_page = x # xs"
  by (simp add: first_page_def)

lemma second_page_Cons: "\<exists>x xs. second_page = x # xs"
  by (simp add: second_page_def)

lemma gap_listing_no_gap_0: "no_gap_after gap_listing (\<lambda>_. 0) 0"
proof -
  obtain x xs where c: "first_page = x # xs" using first_page_Cons by blast
  have a: "accumulated gap_listing (Suc 0) = first_page"
    by (simp add: gap_listing_def page_items_ok_page)
  have "appended gap_listing (\<lambda>_. 0) 0 = Some 719163"
    unfolding appended_def a
    using dates_readable_first_page
    by (simp add: gap_listing_def page_items_ok_page utcnow_date_0 c)
  then show ?thesis
    unfolding no_gap_after_def a
    by (simp add: dates_desc_first_page gap_from_has_gap [symmetric])
qed

lemma gap_listing_gap_1: "gap_after gap_listing (\<lambda>_. 0) (Suc 0)"
proof -
  obtain x xs where c: "second_page = x # xs" using second_page_Cons by blast
  have a: "accumulated gap_listing (Suc (Suc 0)) = first_page @ second_page"
    by (simp add: gap_listing_def page_items_ok_page)
  have "appended gap_listing (\<lambda>_. 0) (Suc 0) = Some 719163"
    unfolding appended_def a
    using dates_readable_both_pages
    by (simp add: gap_listing_def page_items_ok_page utcnow_date_0 c)
  then show ?thesis
    unfolding gap_after_def a
    by (simp add: dates_desc_both_pages gap_from_has_gap [symmetric])
qed

lemma ending_listing_no_gap_0: "no_gap_after ending_listing (\<lambda>_. 0) 0"
proof -
  obtain x xs where c: "first_page = x # xs" using first_page_Cons by blast
  have a: "accumulated ending_listing (Suc 0) = first_page"
    by (simp add: ending_listing_def page_items_ok_page)
  have "appended ending_listing (\<lambda>_. 0) 0 = Some 719163"
    unfolding appended_def a
    using dates_readable_first_page
    by (simp add: ending_listing_def page_items_ok_page utcnow_date_0 c)
  then show ?thesis
    unfolding no_gap_after_def a
    by (simp add: dates_desc_first_page gap_from_has_gap [symmetric])
qed

lemma ending_listing_empty_1: "empty_page ending_listing (Suc 0)"
  by (simp add: empty_page_def ending_listing_def page_items_ok_page)

text \<open>
  Claim C1 with the clock on 1970-01-01, at both exits. With the two pages, page 0 is
  appended without a gap (two distinct dates from four records), page 1 brings
  1969-12-29 where 1969-12-30 is due, and the records of the two pages are returned; the
  third page, which would fail, is not fetched. With the listing that ends, page 1 is
  empty and the records of page 0 are returned.
\<close>

theorem fetcher_returns_exactly_witness:
  "no_gap_after gap_listing (\<lambda>_. 0) 0 \<and> gap_after gap_listing (\<lambda>_. 0) 1
   \<and> dates_desc (first_page @ second_page) = [719163, 719162, 719160]
   \<and> fetch_workouts_for_streak gap_listing (\<lambda>_. 0) = Some (Inr (first_page @ second_page))
   \<and> no_gap_after ending_listing (\<lambda>_. 0) 0 \<and> empty_page ending_listing 1
   \<and> fetch_workouts_for_streak ending_listing (\<lambda>_. 0) = Some (Inr first_page)"
proof -
  have g: "\<exists>p. (\<forall>q<p. no_gap_after gap_listing (\<lambda>_. 0) q) \<and>
      ((empty_page gap_listing p \<and> first_page @ second_page = accumulated gap_listing p) \<or>
       (gap_after gap_listing (\<lambda>_. 0) p \<and>
          first_page @ second_page = accumulated gap_listing (Suc p)))"
    using gap_listing_no_gap_0 gap_listing_gap_1
    by (intro exI [of _ "Suc 0"]) (simp add: gap_listing_def page_items_ok_page)
  have e: "\<exists>p. (\<forall>q<p. no_gap_after ending_listing (\<lambda>_. 0) q) \<and>
      ((empty_page ending_listing p \<and> first_page = accumulated ending_listing p) \<or>
       (gap_after ending_listing (\<lambda>_. 0) p \<and> first_page = accumulated ending_listing (Suc p)))"
    using ending_listing_no_gap_0 ending_listing_empty_1
    by (intro exI [of _ "Suc 0"]) (simp add: ending_listing_def page_items_ok_page)
  have "fetch_workouts_for_streak gap_listing (\<lambda>_. 0) = Some (Inr (first_page @ second_page))"
    using g fetcher_returns_exactly [of gap_listing "\<lambda>_. 0" "first_page @ second_page"]
    by blast
  moreover have "fetch_workouts_for_streak ending_listing (\<lambda>_. 0) = Some (Inr first_page)"
    using e fetcher_returns_exactly [of ending_listing "\<lambda>_. 0" first_page]
    by blast
  ultimately show ?thesis
    using gap_listing_no_gap_0 gap_listing_gap_1 ending_listing_no_gap_0
      ending_listing_empty_1 dates_desc_both_pages
    by simp
qed

section \<open>The claims about the bar\<close>

lemma concat_replicate_single: "concat (replicate n [x]) = replicate n x"
  by (induction n) simp_all

lemma of_char_digit: "d < 10 \<Longrightarrow> of_char (digit d) = 48 + d"
proof -
  assume "d < 10"
  then have "d = 0 \<or> d = 1 \<or> d = 2 \<or> d = 3 \<or> d = 4 \<or> d = 5 \<or> d = 6 \<or> d = 7 \<or> d = 8 \<or> d = 9"
    by arith
  then show ?thesis
    by (elim disjE) (simp_all add: digit_def)
qed

lemma codepoints_digits: "codepoints (digits n) = map (\<lambda>d. 48 + d) (dec n)"
proof (induction n rule: dec.induct)
  case (1 n)
  show ?case
  proof (cases "n < 10")
    case True
    then show ?thesis
      by (simp add: digits.simps [of n] dec.simps [of n] codepoints_def of_char_digit)
  next
    case False
    then have "codepoints (digits (n div 10)) = map (\<lambda>d. 48 + d) (dec (n div 10))"
      using 1 by simp
    then show ?thesis
      using False
      by (simp add: digits.simps [of n] dec.simps [of n] codepoints_def of_char_digit)
  qed
qed

lemma dec_nonempty: "dec n \<noteq> []"
  by (subst dec.simps) simp

lemma dec_digits: "d \<in> set (dec n) \<Longrightarrow> d < 10"
proof (induction n rule: dec.induct)
  case (1 n)
  show ?case
  proof (cases "n < 10")
    case True
    then show ?thesis using 1(2) by (simp add: dec.simps [of n])
  next
    case False
    then show ?thesis using 1 by (auto simp: dec.simps [of n])
  qed
qed

lemma written_snoc: "written (ds @ [d]) = 10 * written ds + d"
  by (simp add: written_def)

lemma written_dec: "written (dec n) = n"
proof (induction n rule: dec.induct)
  case (1 n)
  show ?case
  proof (cases "n < 10")
    case True
    then show ?thesis by (simp add: dec.simps [of n] written_def)
  next
    case False
    then show ?thesis using 1 by (simp add: dec.simps [of n] written_snoc)
  qed
qed

lemma hd_dec: "0 < n \<Longrightarrow> hd (dec n) \<noteq> 0"
proof (induction n rule: dec.induct)
  case (1 n)
  show ?case
  proof (cases "n < 10")
    case True
    then show ?thesis using 1(2) by (simp add: dec.simps [of n])
  next
    case False
    then have "0 < n div 10" by simp
    then have "hd (dec (n div 10)) \<noteq> 0" using 1(1) False by simp
    then show ?thesis using False dec_nonempty [of "n div 10"] by (simp add: dec.simps [of n])
  qed
qed

lemma length_dec: "n < 10 ^ k \<Longrightarrow> 0 < k \<Longrightarrow> length (dec n) \<le> k"
proof (induction n arbitrary: k rule: dec.induct)
  case (1 n)
  show ?case
  proof (cases "n < 10")
    case True
    then show ?thesis using 1(3) by (simp add: dec.simps [of n])
  next
    case False
    obtain j where k: "k = Suc j" using 1(3) by (cases k) auto
    have "0 < j"
    proof (rule ccontr)
      assume "\<not> 0 < j"
      then show False using 1(2) False k by simp
    qed
    moreover have "n div 10 < 10 ^ j"
      using 1(2) k by (simp add: less_mult_imp_div_less mult.commute)
    ultimately have "length (dec (n div 10)) \<le> j"
      using 1(1) False by simp
    then show ?thesis using False k by (simp add: dec.simps [of n])
  qed
qed

lemma length_digits: "length (digits n) = length (dec n)"
proof -
  have "length (codepoints (digits n)) = length (map (\<lambda>d. 48 + d) (dec n))"
    by (simp only: codepoints_digits)
  then show ?thesis by (simp add: codepoints_def)
qed

lemma py_repeat_marker:
  assumes "- ssize_max - 1 \<le> n" and "n \<le> ssize_max" and "mem (nat n)"
  shows "py_repeat mem [marker] n = Inr (replicate (nat n) 9679)"
proof (cases "n < 1")
  case True
  then show ?thesis using assms(1,2) by (simp add: py_repeat_def)
next
  case False
  then have pos: "0 < n" by simp
  have "0 < ssize_max div n"
    using pos assms(2) by (simp add: pos_imp_zdiv_pos_iff)
  then have "\<not> ssize_max div n < 1" by simp
  then show ?thesis
    using False assms
    by (cases "n = 1") (simp_all add: py_repeat_def concat_replicate_single marker_def)
qed

lemma py_format_int_small:
  assumes "0 \<le> i" and "i < 10 ^ 20" and "\<forall>n\<le>20. mem n"
  shows "py_format_int mem i = Inr (digits (nat i))
     \<and> length (digits (nat i)) \<le> 20"
proof -
  have "nat i < 10 ^ 20" using assms(1,2) by (simp add: nat_less_iff)
  then have l: "length (dec (nat i)) \<le> 20" by (rule length_dec) simp
  then have l': "length (digits (nat i)) \<le> 20" by (simp add: length_digits)
  then have "mem (length (digits (nat i)))" using assms(3) by simp
  then show ?thesis
    using assms(1) l' by (simp add: py_format_int_def str_int_def max_str_digits_def)
qed

text \<open>
  Claim C6 as stated fails for a streak beyond the index range: for \<open>s = m = 2\<^sup>6\<^sup>3\<close> the
  repeat count does not fit an index and the renderer raises an OverflowError, on a
  machine of any memory.
\<close>

theorem streak_bar_counterexample:
  "generate_streak_bar no_limit (2 ^ 63) (2 ^ 63) = Inl OverflowError"
  by (simp add: generate_streak_bar_def py_repeat_def ssize_max_def)

text \<open>
  Claim C6, amended. For a streak \<open>s\<close> with \<open>0 \<le> s\<close> and \<open>s + 22 \<le> sys.maxsize\<close>, a
  maximum \<open>m\<close> not below \<open>- sys.maxsize - 1\<close>, and a machine that can allocate strings of
  up to \<open>s + 22\<close> code points, the renderer does not fail. When \<open>s \<le> m\<close> the bar is exactly
  \<open>s\<close> markers U+25CF and nothing else. When \<open>s > m\<close> it is exactly \<open>m\<close> markers (none if
  \<open>m\<close> is not positive), then a space (32), a plus sign (43) and \<open>s - m\<close> in decimal: the
  code points 48 to 57 of digits that have no leading zero and write \<open>s - m\<close>.
\<close>

theorem streak_bar_code_points:
  assumes s0: "0 \<le> s" and smax: "s + 22 \<le> ssize_max" and mmin: "- ssize_max - 1 \<le> m"
    and alloc: "\<forall>n. int n \<le> s + 22 \<longrightarrow> mem n"
  shows "(s \<le> m \<longrightarrow> generate_streak_bar mem s m = Inr (replicate (nat s) 9679))
   \<and> (m < s \<longrightarrow>
        (\<exists>ds. generate_streak_bar mem s m
                = Inr (replicate (nat m) 9679 @ [32, 43] @ map (\<lambda>d. 48 + d) ds)
           \<and> ds \<noteq> [] \<and> (\<forall>d\<in>set ds. d < 10) \<and> hd ds \<noteq> 0
           \<and> int (written ds) = s - m))"
proof (intro conjI impI)
  assume le: "s \<le> m"
  have "mem (nat s)" using alloc s0 by simp
  then have "py_repeat mem [marker] s = Inr (replicate (nat s) 9679)"
    using s0 smax by (intro py_repeat_marker) simp_all
  then show "generate_streak_bar mem s m = Inr (replicate (nat s) 9679)"
    using le by (simp add: generate_streak_bar_def)
next
  assume lt: "m < s"
  have "mem (nat m)" using alloc s0 lt by simp
  then have bar: "py_repeat mem [marker] m = Inr (replicate (nat m) 9679)"
    using mmin lt smax by (intro py_repeat_marker) simp_all
  have pos: "0 < s - m" using lt by simp
  have "s - m < 2 ^ 64" using smax mmin by (simp add: ssize_max_def)
  then have small: "s - m < 10 ^ 20" by simp
  have "\<forall>n\<le>20. mem n" using alloc s0 by simp
  with pos small have num: "py_format_int mem (s - m) = Inr (digits (nat (s - m)))"
    and len: "length (digits (nat (s - m))) \<le> 20"
    using py_format_int_small [of "s - m" mem] by simp_all
  let ?ds = "dec (nat (s - m))"
  let ?suffix = "[32, 43] @ map (\<lambda>d. 48 + d) ?ds"
  have cp: "codepoints (digits (nat (s - m))) = map (\<lambda>d. 48 + d) ?ds"
    by (rule codepoints_digits)
  have ne: "?ds \<noteq> []" by (rule dec_nonempty)
  have lds: "length ?ds \<le> 20" using len by (simp add: length_digits)
  have sp: "codepoints '' +'' = [32, 43]" by (simp add: codepoints_def)
  have "mem (2 + length ?ds)" using alloc s0 lds by simp
  then have suffix: "py_concat mem (codepoints '' +'') (codepoints (digits (nat (s - m))))
      = Inr ?suffix"
    unfolding cp sp using ne lds by (simp add: py_concat_def ssize_max_def)
  have final: "py_concat mem (replicate (nat m) 9679) ?suffix
      = Inr (replicate (nat m) 9679 @ ?suffix)"
  proof (cases "m \<le> 0")
    case True
    then show ?thesis by (simp add: py_concat_def)
  next
    case False
    then have "int (nat m + (2 + length ?ds)) \<le> s + 22" using lt lds by simp
    then have "mem (nat m + (2 + length ?ds))" using alloc by blast
    moreover have "int (nat m) + (2 + int (length ?ds)) \<le> ssize_max"
      using False lt lds smax by simp
    ultimately show ?thesis using False by (simp add: py_concat_def)
  qed
  have "generate_streak_bar mem s m = Inr (replicate (nat m) 9679 @ ?suffix)"
    using lt bar num suffix final by (simp add: generate_streak_bar_def)
  moreover have "\<forall>d\<in>set ?ds. d < 10" using dec_digits by blast
  moreover have "hd ?ds \<noteq> 0" using pos by (intro hd_dec) simp
  moreover have "int (written ?ds) = s - m" using pos by (simp add: written_dec)
  ultimately show "\<exists>ds. generate_streak_bar mem s m
                = Inr (replicate (nat m) 9679 @ [32, 43] @ map (\<lambda>d. 48 + d) ds)
           \<and> ds \<noteq> [] \<and> (\<forall>d\<in>set ds. d < 10) \<and> hd ds \<noteq> 0
           \<and> int (written ds) = s - m"
    using ne by (intro exI [of _ ?ds]) simp
qed

text \<open>
  Claim C6, amended, at the two examples, with the default maximum of 20 and no limit of
  memory: five markers for 5, and twenty markers, a space, a plus sign and the digit 5
  for 25.
\<close>

theorem streak_bar_code_points_witness:
  "generate_streak_bar no_limit 5 default_max_units = Inr [9679, 9679, 9679, 9679, 9679]
   \<and> generate_streak_bar no_limit 25 default_max_units
       = Inr (replicate 20 9679 @ [32, 43, 53])
   \<and> written [5] = 5"
proof -
  have a5: "\<forall>n. int n \<le> 5 + 22 \<longrightarrow> no_limit n" by (simp add: no_limit_def)
  have b5: "(5::int) + 22 \<le> ssize_max" "- ssize_max - 1 \<le> (20::int)"
    by (simp_all add: ssize_max_def)
  have five: "replicate (nat 5) (9679::nat) = [9679, 9679, 9679, 9679, 9679]"
    by (simp add: eval_nat_numeral)
  have "generate_streak_bar no_limit 5 20 = Inr [9679, 9679, 9679, 9679, 9679]"
    using streak_bar_code_points [of 5 20 no_limit, OF _ b5 a5] five by simp
  moreover have "generate_streak_bar no_limit 25 20 = Inr (replicate 20 9679 @ [32, 43, 53])"
  proof -
    have r: "py_repeat no_limit [marker] 20 = Inr (replicate 20 9679)"
      using py_repeat_marker [of 20 no_limit]
      by (simp add: ssize_max_def no_limit_def)
    have d: "digits 5 = ''5''" by (simp add: digits.simps digit_def)
    have f: "py_format_int no_limit 5 = Inr ''5''"
      by (simp add: py_format_int_def str_int_def d max_str_digits_def no_limit_def)
    show ?thesis
      by (simp add: generate_streak_bar_def r f py_concat_def codepoints_def no_limit_def
          ssize_max_def)
  qed
  ultimately show ?thesis
    by (simp add: default_max_units_def written_def)
qed

end
